theory Spec2Isabelle
  imports Main
begin

section \<open>Strings, exceptions and the outside world\<close>

text \<open>
  A Python \<^verbatim>\<open>str\<close> is a sequence of Unicode code points; it is modelled as a list of
  natural numbers, and \<open>u\<close> embeds an ASCII literal.
\<close>

type_synonym str = "nat list"

definition u :: "string \<Rightarrow> str" where
  "u s = map of_char s"

text \<open>A table cell: \<open>None\<close> is a missing value (pandas' NaN, Python's None).\<close>

type_synonym cell = "str option"

text \<open>
  Exceptions are values. All of them are subclasses of Python's \<^verbatim>\<open>Exception\<close>;
  \<open>HttpError\<close> is the one class the Sheets functions catch by name.
\<close>

datatype exn =
    IndexError | ZeroDivisionError | AttributeError | KeyError | JSONDecodeError
  | HttpError | RequestException | OSError

text \<open>
  \<open>Resilient\<close> is a GET through \<^verbatim>\<open>requests_retry_session()\<close> (the session whose adapter
  carries \<^verbatim>\<open>Retry(total=3, read=3, connect=3, backoff_factor=0.3,
  status_forcelist=(500, 502, 504))\<close>); \<open>Bare\<close> is a plain \<^verbatim>\<open>requests.get\<close>.
\<close>

datatype client = Resilient | Bare

text \<open>
  A response is represented by what the code reads from it: the status code, the text,
  and the two projections of the JSON body. \<open>rate_remaining = None\<close> means that
  \<^verbatim>\<open>response.json()['rate']['remaining']\<close> raises; \<open>email_field = None\<close> means that
  \<^verbatim>\<open>response.json()\<close> raises. \<open>JAbsent\<close> is a payload without the key \<^verbatim>\<open>email\<close>,
  \<open>JNull\<close> is \<^verbatim>\<open>"email": null\<close>.
\<close>

datatype jfield = JAbsent | JNull | JStr str

record response =
  status_code :: int
  body_text :: str
  rate_remaining :: "int option"
  email_field :: "jfield option"

record row =
  username :: cell
  user_id :: cell
  profile_url :: cell
  status :: cell
  email :: cell

text \<open>The messages of \<^verbatim>\<open>logger.info\<close> and \<^verbatim>\<open>logger.error\<close>, one constructor per call site.\<close>

datatype logmsg =
    RemainingRequests int
  | SwitchedKey nat
  | RateLimitAllKeys
  | FetchFailed str int
  | SheetMissing str
  | SheetCreated str
  | SheetExists str
  | SettingUpColumns str
  | ColumnsSetUp str
  | SheetCheckError exn
  | DeterminingNextRow str
  | AttemptingWrite str nat "cell list"
  | WriteResponse
  | SheetWriteError exn
  | Processing cell cell
  | AppendedEmail cell str
  | NoEmailFound cell
  | MaxRuntimeExiting
  | MaxRuntimeSaving
  | RowError cell exn
  | ProcessingComplete

text \<open>The calls of the Google Sheets client that the sink makes.\<close>

datatype gcall =
    LoadCredentials
  | GetSpreadsheet
  | AddSheet str
  | UpdateHeader str
  | GetColumnA str
  | UpdateRow str nat "cell list"

text \<open>
  Every interaction with the outside is an event of the trace, in the order the program
  makes them.
\<close>

datatype event =
    HttpGet client str str
  | Sleep nat
  | Now
  | Info logmsg
  | Error logmsg
  | Sheets gcall
  | ToCsv "row list"

text \<open>
  The outside world answers as a function of everything that happened before the call:
  an HTTP GET (client, URL, Authorization header) returns a response or raises,
  \<^verbatim>\<open>datetime.now()\<close> returns a time in microseconds, the Sheets calls and
  \<^verbatim>\<open>DataFrame.to_csv\<close> succeed or raise.
\<close>

record env =
  http_get :: "event list \<Rightarrow> client \<Rightarrow> str \<Rightarrow> str \<Rightarrow> exn + response"
  now :: "event list \<Rightarrow> int"
  sheet_titles :: "event list \<Rightarrow> exn + str list"
  column_a_len :: "event list \<Rightarrow> str \<Rightarrow> exn + nat"
  sheets_exec :: "event list \<Rightarrow> gcall \<Rightarrow> exn option"
  to_csv :: "event list \<Rightarrow> row list \<Rightarrow> exn option"


section \<open>The email extractor\<close>

text \<open>
  \<^verbatim>\<open>extract_email\<close> calls \<^verbatim>\<open>re.findall\<close> with the pattern
  \<^verbatim>\<open>\b[A-Za-z0-9._%+-]+@[A-Za-z0-9.-]+\.[A-Z|a-z]{2,}\b\<close>. The pattern is a sequence of
  word-boundary assertions, literal characters and greedy repetitions of a character class;
  the matcher below is the backtracking matcher of Python's \<^verbatim>\<open>re\<close> for such sequences.
  A character class is a list of ranges and single characters (inside a class \<^verbatim>\<open>|\<close> is
  an ordinary character).
\<close>

datatype item = Range char char | One char

datatype node = Boundary | Lit char | Repeat "item list" nat

fun in_item :: "nat \<Rightarrow> item \<Rightarrow> bool" where
  "in_item x (Range a b) = (of_char a \<le> x \<and> x \<le> of_char b)"
| "in_item x (One a) = (x = of_char a)"

definition in_class :: "item list \<Rightarrow> nat \<Rightarrow> bool" where
  "in_class cls x = (\<exists>i \<in> set cls. in_item x i)"

text \<open>
  \<^verbatim>\<open>\b\<close> holds where exactly one of the characters before and after the position is a word
  character; the start and the end of the text count as non-word. For a \<^verbatim>\<open>str\<close> pattern a word
  character is \<^verbatim>\<open>_\<close> or a Unicode alphanumeric: below 128 these are the ASCII letters and
  digits, and from 128 on the Unicode table decides, which is the parameter \<open>W\<close>.
\<close>

definition is_word :: "(nat \<Rightarrow> bool) \<Rightarrow> nat \<Rightarrow> bool" where
  "is_word W x =
     (if x < 128
      then in_class [Range CHR ''a'' CHR ''z'', Range CHR ''A'' CHR ''Z'', Range CHR ''0'' CHR ''9'', One CHR ''_''] x
      else W x)"

definition word_before :: "(nat \<Rightarrow> bool) \<Rightarrow> nat option \<Rightarrow> bool" where
  "word_before W prev = (case prev of None \<Rightarrow> False | Some x \<Rightarrow> is_word W x)"

definition word_here :: "(nat \<Rightarrow> bool) \<Rightarrow> str \<Rightarrow> bool" where
  "word_here W s = (case s of [] \<Rightarrow> False | x # xs \<Rightarrow> is_word W x)"

definition at_boundary :: "(nat \<Rightarrow> bool) \<Rightarrow> nat option \<Rightarrow> str \<Rightarrow> bool" where
  "at_boundary W prev s = (word_before W prev \<noteq> word_here W s)"

text \<open>The character before the position reached after \<open>k\<close> characters of \<open>s\<close>.\<close>

definition prev_after :: "nat option \<Rightarrow> str \<Rightarrow> nat \<Rightarrow> nat option" where
  "prev_after prev s k = (if k = 0 then prev else Some (s ! (k - 1)))"

fun first_some :: "'a option list \<Rightarrow> 'a option" where
  "first_some [] = None"
| "first_some (None # rs) = first_some rs"
| "first_some (Some r # rs) = Some r"

text \<open>
  \<open>match_here W ns prev s\<close> matches the nodes \<open>ns\<close> at the start of \<open>s\<close>, where \<open>prev\<close> is
  the character before \<open>s\<close> in the text; it returns the length of the match. A repetition
  first takes as many characters as the class allows and gives them back one by one, down to
  its minimum, until the rest of the pattern matches.
\<close>

fun match_here :: "(nat \<Rightarrow> bool) \<Rightarrow> node list \<Rightarrow> nat option \<Rightarrow> str \<Rightarrow> nat option" where
  "match_here W [] prev s = Some 0"
| "match_here W (Boundary # ns) prev s =
     (if at_boundary W prev s then match_here W ns prev s else None)"
| "match_here W (Lit c # ns) prev s =
     (case s of
        [] \<Rightarrow> None
      | x # xs \<Rightarrow> if x = of_char c then map_option Suc (match_here W ns (Some x) xs) else None)"
| "match_here W (Repeat cls lo # ns) prev s =
     (let hi = length (takeWhile (in_class cls) s)
      in first_some
           (map (\<lambda>k. map_option (\<lambda>r. k + r) (match_here W ns (prev_after prev s k) (drop k s)))
                (rev [lo..<Suc hi])))"

text \<open>
  \<^verbatim>\<open>re.findall\<close>: the matches from left to right, the scan resuming after each match
  (\<open>skip\<close> counts the characters of the last match still to pass).
\<close>

fun findall_from :: "(nat \<Rightarrow> bool) \<Rightarrow> node list \<Rightarrow> nat \<Rightarrow> nat option \<Rightarrow> str \<Rightarrow> str list" where
  "findall_from W p skip prev [] =
     (if skip = 0 then (case match_here W p prev [] of None \<Rightarrow> [] | Some n \<Rightarrow> [[]]) else [])"
| "findall_from W p skip prev (x # xs) =
     (if skip > 0 then findall_from W p (skip - 1) (Some x) xs
      else (case match_here W p prev (x # xs) of
              None \<Rightarrow> findall_from W p 0 (Some x) xs
            | Some n \<Rightarrow> take n (x # xs) # findall_from W p (n - 1) (Some x) xs))"

definition re_findall :: "(nat \<Rightarrow> bool) \<Rightarrow> node list \<Rightarrow> str \<Rightarrow> str list" where
  "re_findall W p s = findall_from W p 0 None s"

text \<open>\<^verbatim>\<open>str.strip(chars)\<close>: drops leading and trailing characters that are in \<open>chars\<close>.\<close>

definition strip :: "str \<Rightarrow> str \<Rightarrow> str" where
  "strip chars s =
     rev (dropWhile (\<lambda>x. x \<in> set chars) (rev (dropWhile (\<lambda>x. x \<in> set chars) s)))"

definition local_class :: "item list" where
  "local_class = [Range CHR ''A'' CHR ''Z'', Range CHR ''a'' CHR ''z'', Range CHR ''0'' CHR ''9'',
                  One CHR ''.'', One CHR ''_'', One CHR ''%'', One CHR ''+'', One CHR ''-'']"

definition domain_class :: "item list" where
  "domain_class = [Range CHR ''A'' CHR ''Z'', Range CHR ''a'' CHR ''z'', Range CHR ''0'' CHR ''9'',
                   One CHR ''.'', One CHR ''-'']"

definition tld_class :: "item list" where
  "tld_class = [Range CHR ''A'' CHR ''Z'', One CHR ''|'', Range CHR ''a'' CHR ''z'']"

definition pattern :: "node list" where
  "pattern = [Boundary, Repeat local_class 1, Lit CHR ''@'', Repeat domain_class 1,
              Lit CHR ''.'', Repeat tld_class 2, Boundary]"

text \<open>
  The argument of \<^verbatim>\<open>strip\<close> is the string \<^verbatim>\<open>"<>[]()\<close>, whose first character is the double
  quote, code point 34.
\<close>

definition extract_email :: "(nat \<Rightarrow> bool) \<Rightarrow> str \<Rightarrow> str option" where
  "extract_email W text =
     (case re_findall W pattern text of
        [] \<Rightarrow> None
      | m # ms \<Rightarrow> Some (strip (34 # u ''<>[]()'') m))"

text \<open>
  The declarative reading of the pattern: \<open>matches W ns prev s n\<close> holds when the first \<open>n\<close>
  characters of \<open>s\<close> can be split among the nodes \<open>ns\<close> in some way. \<open>match_at\<close> is a match
  of length \<open>n\<close> at position \<open>i\<close> of a text, \<open>fullmatch\<close> a match of a whole string
  (\<^verbatim>\<open>re.fullmatch\<close>), and \<open>core\<close> is the pattern without its two \<^verbatim>\<open>\b\<close> assertions.
\<close>

fun matches :: "(nat \<Rightarrow> bool) \<Rightarrow> node list \<Rightarrow> nat option \<Rightarrow> str \<Rightarrow> nat \<Rightarrow> bool" where
  "matches W [] prev s n = (n = 0)"
| "matches W (Boundary # ns) prev s n = (at_boundary W prev s \<and> matches W ns prev s n)"
| "matches W (Lit c # ns) prev s n =
     (case s of [] \<Rightarrow> False | x # xs \<Rightarrow> x = of_char c \<and> 0 < n \<and> matches W ns (Some x) xs (n - 1))"
| "matches W (Repeat cls lo # ns) prev s n =
     (\<exists>k \<in> {lo..min n (length s)}.
        (\<forall>x \<in> set (take k s). in_class cls x) \<and> matches W ns (prev_after prev s k) (drop k s) (n - k))"


fun node_char :: "node \<Rightarrow> nat \<Rightarrow> bool" where
  "node_char Boundary x = False"
| "node_char (Lit c) x = (x = of_char c)"
| "node_char (Repeat cls lo) x = in_class cls x"


definition core :: "node list" where
  "core = [Repeat local_class 1, Lit CHR ''@'', Repeat domain_class 1, Lit CHR ''.'', Repeat tld_class 2]"

definition fullmatch :: "(nat \<Rightarrow> bool) \<Rightarrow> node list \<Rightarrow> str \<Rightarrow> bool" where
  "fullmatch W p s = matches W p None s (length s)"

definition match_at :: "(nat \<Rightarrow> bool) \<Rightarrow> node list \<Rightarrow> str \<Rightarrow> nat \<Rightarrow> nat \<Rightarrow> bool" where
  "match_at W p text i n = matches W p (prev_after None text i) (drop i text) n"



section \<open>The key-rotation handler\<close>

record handler =
  api_keys :: "str list"
  current_key_index :: nat
  request_count :: nat
  max_requests_per_key :: nat
  failed_attempts :: nat

text \<open>The mutable state of a run: the handler object, the data frame, and the trace.\<close>

record state =
  github_api_handler :: handler
  input_df :: "row list"
  trace :: "event list"

definition emit :: "event \<Rightarrow> state \<Rightarrow> state" where
  "emit e s = s\<lparr>trace := trace s @ [e]\<rparr>"

definition init_handler :: "str list \<Rightarrow> handler" where
  "init_handler keys =
     \<lparr>api_keys = keys, current_key_index = 0, request_count = 0,
      max_requests_per_key = 3650, failed_attempts = 0\<rparr>"

text \<open>
  \<^verbatim>\<open>get_headers\<close>: the value of the Authorization header; indexing the pool out of range
  raises.
\<close>

definition get_headers :: "handler \<Rightarrow> exn + str" where
  "get_headers h =
     (if current_key_index h < length (api_keys h)
      then Inr (u ''token '' @ api_keys h ! current_key_index h)
      else Inl IndexError)"

definition requests_get :: "env \<Rightarrow> client \<Rightarrow> str \<Rightarrow> str \<Rightarrow> state \<Rightarrow> (exn + response) \<times> state" where
  "requests_get E c url headers s = (http_get E (trace s) c url headers, emit (HttpGet c url headers) s)"

definition get_remaining_requests :: "env \<Rightarrow> state \<Rightarrow> (exn + int) \<times> state" where
  "get_remaining_requests E s =
     (case get_headers (github_api_handler s) of
        Inl e \<Rightarrow> (Inl e, s)
      | Inr headers \<Rightarrow>
          (case requests_get E Resilient (u ''https://api.github.com/rate_limit'') headers s of
             (Inl e, s1) \<Rightarrow> (Inl e, s1)
           | (Inr response, s1) \<Rightarrow>
               if status_code response = 200
               then (case rate_remaining response of
                       None \<Rightarrow> (Inl KeyError, s1)
                     | Some remaining \<Rightarrow> (Inr remaining, s1))
               else (Inr 0, s1)))"

definition check_and_switch_key :: "env \<Rightarrow> state \<Rightarrow> (exn + unit) \<times> state" where
  "check_and_switch_key E s =
     (case get_remaining_requests E s of
        (Inl e, s1) \<Rightarrow> (Inl e, s1)
      | (Inr remaining_requests, s1) \<Rightarrow>
          let s2 = emit (Info (RemainingRequests remaining_requests)) s1;
              h = github_api_handler s2
          in if remaining_requests < 10 then
               if length (api_keys h) = 0 then (Inl ZeroDivisionError, s2)
               else
                 let h1 = h\<lparr>current_key_index := (current_key_index h + 1) mod length (api_keys h)\<rparr>;
                     h2 = h1\<lparr>request_count := 0\<rparr>;
                     h3 = h2\<lparr>failed_attempts := failed_attempts h2 + 1\<rparr>;
                     s3 = emit (Info (SwitchedKey (current_key_index h3 + 1)))
                            (s2\<lparr>github_api_handler := h3\<rparr>)
                 in if failed_attempts h3 \<ge> 18 then
                      let s4 = emit (Sleep 3900) (emit (Info RateLimitAllKeys) s3)
                      in (Inr (), s4\<lparr>github_api_handler := h3\<lparr>failed_attempts := 0\<rparr>\<rparr>)
                    else (Inr (), s3)
             else (Inr (), s2))"

text \<open>\<open>k\<close> successive calls of \<^verbatim>\<open>check_and_switch_key\<close>, stopping at the first that raises.\<close>

fun check_and_switch_key_times :: "env \<Rightarrow> nat \<Rightarrow> state \<Rightarrow> (exn + unit) \<times> state" where
  "check_and_switch_key_times E 0 s = (Inr (), s)"
| "check_and_switch_key_times E (Suc k) s =
     (case check_and_switch_key E s of
        (Inl e, s1) \<Rightarrow> (Inl e, s1)
      | (Inr _, s1) \<Rightarrow> check_and_switch_key_times E k s1)"

text \<open>The cooldowns of a trace: the durations of its sleeps, in order.\<close>

fun cooldowns :: "event list \<Rightarrow> nat list" where
  "cooldowns [] = []"
| "cooldowns (Sleep d # es) = d # cooldowns es"
| "cooldowns (e # es) = cooldowns es"


section \<open>The profile fetcher\<close>

text \<open>\<^verbatim>\<open>str.startswith\<close> and \<^verbatim>\<open>str.split\<close> on a one-character separator.\<close>

definition startswith :: "str \<Rightarrow> str \<Rightarrow> bool" where
  "startswith s p = (take (length p) s = p)"

fun split :: "nat \<Rightarrow> str \<Rightarrow> str list" where
  "split sep [] = [[]]"
| "split sep (x # xs) =
     (if x = sep then [] # split sep xs
      else (case split sep xs of [] \<Rightarrow> [[x]] | w # ws \<Rightarrow> (x # w) # ws))"

text \<open>
  \<^verbatim>\<open>get_email_from_readme\<close> fetches the README with \<^verbatim>\<open>requests.get\<close>, not with the
  retrying session.
\<close>

definition get_email_from_readme ::
  "env \<Rightarrow> (nat \<Rightarrow> bool) \<Rightarrow> str \<Rightarrow> str \<Rightarrow> state \<Rightarrow> (exn + cell) \<times> state" where
  "get_email_from_readme E W user headers s =
     (case requests_get E Bare
             (u ''https://raw.githubusercontent.com/'' @ user @ u ''/'' @ user @ u ''/main/README.md'')
             headers s of
        (Inl e, s1) \<Rightarrow> (Inl e, s1)
      | (Inr response, s1) \<Rightarrow>
          if status_code response = 200
          then (Inr (extract_email W (body_text response)), s1)
          else (Inr None, s1))"

text \<open>
  \<^verbatim>\<open>get_user_info_from_github_api\<close>. The argument is a table cell; on a missing value the
  call of \<^verbatim>\<open>startswith\<close> raises, after the quota check and the increment of the request
  counter. \<open>47\<close> is the code point of the slash. The result \<open>None\<close> is Python's \<^verbatim>\<open>None\<close>.
\<close>

definition get_user_info_from_github_api ::
  "env \<Rightarrow> (nat \<Rightarrow> bool) \<Rightarrow> cell \<Rightarrow> state \<Rightarrow> (exn + cell) \<times> state" where
  "get_user_info_from_github_api E W username_or_url s =
     (case check_and_switch_key E s of
        (Inl e, s1) \<Rightarrow> (Inl e, s1)
      | (Inr _, s1) \<Rightarrow>
          (case get_headers (github_api_handler s1) of
             Inl e \<Rightarrow> (Inl e, s1)
           | Inr headers \<Rightarrow>
               let h = github_api_handler s1;
                   s2 = s1\<lparr>github_api_handler := h\<lparr>request_count := request_count h + 1\<rparr>\<rparr>
               in (case username_or_url of
                     None \<Rightarrow> (Inl AttributeError, s2)
                   | Some ident \<Rightarrow>
                       let user = (if startswith ident (u ''https://github.com/'')
                                   then last (split 47 ident) else ident)
                       in (case requests_get E Resilient (u ''https://api.github.com/users/'' @ user)
                                   headers s2 of
                             (Inl e, s3) \<Rightarrow> (Inl e, s3)
                           | (Inr response, s3) \<Rightarrow>
                               if status_code response \<noteq> 200
                               then (Inr None,
                                     emit (Info (FetchFailed ident (status_code response))) s3)
                               else (case email_field response of
                                       None \<Rightarrow> (Inl JSONDecodeError, s3)
                                     | Some (JStr e) \<Rightarrow>
                                         if e \<noteq> [] then (Inr (Some e), s3)
                                         else get_email_from_readme E W user headers s3
                                     | Some JNull \<Rightarrow> get_email_from_readme E W user headers s3
                                     | Some JAbsent \<Rightarrow> get_email_from_readme E W user headers s3)))))"

section \<open>The spreadsheet sink (GHES.py)\<close>

text \<open>
  One call of the Sheets client: the event is recorded and the outside world says whether
  the call raises. \<open>LoadCredentials\<close> stands for the two lines that load the service
  account and build the client.
\<close>

definition sheets_call :: "env \<Rightarrow> gcall \<Rightarrow> state \<Rightarrow> (exn + unit) \<times> state" where
  "sheets_call E c s =
     (case sheets_exec E (trace s) c of
        Some e \<Rightarrow> (Inl e, emit (Sheets c) s)
      | None \<Rightarrow> (Inr (), emit (Sheets c) s))"

text \<open>
  \<^verbatim>\<open>except HttpError as e: logger.error(...); raise\<close>: an \<open>HttpError\<close> is logged and raised
  again; any other exception passes through unlogged.
\<close>

definition except_HttpError ::
  "(exn \<Rightarrow> logmsg) \<Rightarrow> (exn + unit) \<times> state \<Rightarrow> (exn + unit) \<times> state" where
  "except_HttpError msg r =
     (case r of
        (Inl e, s) \<Rightarrow> (Inl e, if e = HttpError then emit (Error (msg e)) s else s)
      | (Inr x, s) \<Rightarrow> (Inr x, s))"

text \<open>The body of the \<^verbatim>\<open>try\<close> of \<^verbatim>\<open>ensure_sheet_and_setup_columns\<close>.\<close>

definition ensure_sheet_try :: "env \<Rightarrow> str \<Rightarrow> state \<Rightarrow> (exn + unit) \<times> state" where
  "ensure_sheet_try E sheet_name s =
     (case sheet_titles E (trace s) of
        Inl e \<Rightarrow> (Inl e, emit (Sheets GetSpreadsheet) s)
      | Inr titles \<Rightarrow>
          let s1 = emit (Sheets GetSpreadsheet) s;
              created =
                (if sheet_name \<notin> set titles
                 then (case sheets_call E (AddSheet sheet_name) (emit (Info (SheetMissing sheet_name)) s1) of
                         (Inl e, s2) \<Rightarrow> (Inl e, s2)
                       | (Inr _, s2) \<Rightarrow> (Inr (), emit (Info (SheetCreated sheet_name)) s2))
                 else (Inr (), emit (Info (SheetExists sheet_name)) s1))
          in (case created of
                (Inl e, s3) \<Rightarrow> (Inl e, s3)
              | (Inr _, s3) \<Rightarrow>
                  (case sheets_call E (UpdateHeader sheet_name)
                          (emit (Info (SettingUpColumns sheet_name)) s3) of
                     (Inl e, s4) \<Rightarrow> (Inl e, s4)
                   | (Inr _, s4) \<Rightarrow> (Inr (), emit (Info (ColumnsSetUp sheet_name)) s4))))"

definition ensure_sheet_and_setup_columns :: "env \<Rightarrow> str \<Rightarrow> state \<Rightarrow> (exn + unit) \<times> state" where
  "ensure_sheet_and_setup_columns E sheet_name s =
     (case sheets_call E LoadCredentials s of
        (Inl e, s1) \<Rightarrow> (Inl e, s1)
      | (Inr _, s1) \<Rightarrow> except_HttpError SheetCheckError (ensure_sheet_try E sheet_name s1))"

text \<open>
  The body of the \<^verbatim>\<open>try\<close> of \<^verbatim>\<open>write_to_google_sheet\<close>: the row is written after the last
  populated row of column A.
\<close>

definition write_row_try :: "env \<Rightarrow> str \<Rightarrow> cell list \<Rightarrow> state \<Rightarrow> (exn + unit) \<times> state" where
  "write_row_try E sheet_name data s =
     (let s1 = emit (Info (DeterminingNextRow sheet_name)) s
      in (case column_a_len E (trace s1) sheet_name of
            Inl e \<Rightarrow> (Inl e, emit (Sheets (GetColumnA sheet_name)) s1)
          | Inr n \<Rightarrow>
              let next_row = n + 1;
                  s2 = emit (Info (AttemptingWrite sheet_name next_row data))
                         (emit (Sheets (GetColumnA sheet_name)) s1)
              in (case sheets_call E (UpdateRow sheet_name next_row data) s2 of
                    (Inl e, s3) \<Rightarrow> (Inl e, s3)
                  | (Inr _, s3) \<Rightarrow> (Inr (), emit (Info WriteResponse) s3))))"

definition write_to_google_sheet :: "env \<Rightarrow> str \<Rightarrow> cell list \<Rightarrow> state \<Rightarrow> (exn + unit) \<times> state" where
  "write_to_google_sheet E sheet_name data s =
     (case sheets_call E LoadCredentials s of
        (Inl e, s1) \<Rightarrow> (Inl e, s1)
      | (Inr _, s1) \<Rightarrow>
          (case ensure_sheet_and_setup_columns E sheet_name s1 of
             (Inl e, s2) \<Rightarrow> (Inl e, s2)
           | (Inr _, s2) \<Rightarrow> except_HttpError SheetWriteError (write_row_try E sheet_name data s2)))"

section \<open>The driver loops\<close>

text \<open>
  The \<^verbatim>\<open>for\<close> loop of \<^verbatim>\<open>main\<close> in each file, from the runtime check to the row's
  \<^verbatim>\<open>except\<close>. It ends by the \<^verbatim>\<open>return\<close> of the runtime check, by running out of rows, or
  (in cloud02.py, where the runtime branch saves the file) by an exception that leaves the
  loop for the handler around the whole of \<^verbatim>\<open>main\<close>.
\<close>

datatype loop_end = Returned | Exhausted | Raised exn

text \<open>\<^verbatim>\<open>timedelta(hours=5, minutes=50)\<close>, in microseconds.\<close>

definition max_runtime :: int where
  "max_runtime = (5 * 3600 + 50 * 60) * 1000000"

text \<open>A value is truthy in \<^verbatim>\<open>if email:\<close> when it is neither \<^verbatim>\<open>None\<close> nor the empty string.\<close>

definition truthy :: "cell \<Rightarrow> bool" where
  "truthy c = (case c of None \<Rightarrow> False | Some v \<Rightarrow> v \<noteq> [])"

text \<open>
  \<^verbatim>\<open>input_df.at[index, 'Email'] = email\<close> followed by \<^verbatim>\<open>input_df.at[index, 'Status'] = 'Done'\<close>.
  The index comes from \<^verbatim>\<open>iterrows\<close> of the same frame, so it is in range.
\<close>

definition mark_done :: "nat \<Rightarrow> cell \<Rightarrow> state \<Rightarrow> state" where
  "mark_done index e s =
     s\<lparr>input_df := (input_df s)[index := (input_df s ! index)\<lparr>email := e, status := Some (u ''Done'')\<rparr>]\<rparr>"

text \<open>The body of the row's \<^verbatim>\<open>try\<close> in GHES.py: the row found is written to the sheet at once.\<close>

definition row_try_GHES :: "env \<Rightarrow> (nat \<Rightarrow> bool) \<Rightarrow> nat \<Rightarrow> row \<Rightarrow> state \<Rightarrow> (exn + unit) \<times> state" where
  "row_try_GHES E W index r s =
     (case get_user_info_from_github_api E W (profile_url r) s of
        (Inl e, s1) \<Rightarrow> (Inl e, s1)
      | (Inr found, s1) \<Rightarrow>
          if truthy found
          then write_to_google_sheet E (u ''Sheet2'')
                 [username r, user_id r, profile_url r, found]
                 (emit (Info (AppendedEmail (username r) (the found))) (mark_done index found s1))
          else (Inr (), emit (Info (NoEmailFound (username r))) s1))"

text \<open>The body of the row's \<^verbatim>\<open>try\<close> in cloud02.py: the whole frame is saved after each row.\<close>

definition save_csv :: "env \<Rightarrow> state \<Rightarrow> (exn + unit) \<times> state" where
  "save_csv E s =
     (case to_csv E (trace s) (input_df s) of
        Some e \<Rightarrow> (Inl e, emit (ToCsv (input_df s)) s)
      | None \<Rightarrow> (Inr (), emit (ToCsv (input_df s)) s))"

definition row_try_cloud02 :: "env \<Rightarrow> (nat \<Rightarrow> bool) \<Rightarrow> nat \<Rightarrow> row \<Rightarrow> state \<Rightarrow> (exn + unit) \<times> state" where
  "row_try_cloud02 E W index r s =
     (case get_user_info_from_github_api E W (profile_url r) s of
        (Inl e, s1) \<Rightarrow> (Inl e, s1)
      | (Inr found, s1) \<Rightarrow>
          save_csv E
            (if truthy found
             then emit (Info (AppendedEmail (username r) (the found))) (mark_done index found s1)
             else emit (Info (NoEmailFound (username r))) s1))"

text \<open>
  The loops run over the rows that \<^verbatim>\<open>iterrows\<close> yields, each with its index;
  \<open>start_time\<close> is the time read at the start of \<^verbatim>\<open>main\<close>.
\<close>

fun loop_GHES :: "env \<Rightarrow> (nat \<Rightarrow> bool) \<Rightarrow> int \<Rightarrow> (nat \<times> row) list \<Rightarrow> state \<Rightarrow> loop_end \<times> state" where
  "loop_GHES E W start_time [] s = (Exhausted, s)"
| "loop_GHES E W start_time ((index, r) # rest) s =
     (let s0 = emit Now s
      in if now E (trace s) - start_time > max_runtime
         then (Returned, emit (Info MaxRuntimeExiting) s0)
         else if status r = Some (u ''Done'') then loop_GHES E W start_time rest s0
         else (case row_try_GHES E W index r (emit (Info (Processing (username r) (profile_url r))) s0) of
                 (Inl e, s1) \<Rightarrow> loop_GHES E W start_time rest (emit (Error (RowError (profile_url r) e)) s1)
               | (Inr _, s1) \<Rightarrow> loop_GHES E W start_time rest s1))"

fun loop_cloud02 :: "env \<Rightarrow> (nat \<Rightarrow> bool) \<Rightarrow> int \<Rightarrow> (nat \<times> row) list \<Rightarrow> state \<Rightarrow> loop_end \<times> state" where
  "loop_cloud02 E W start_time [] s = (Exhausted, s)"
| "loop_cloud02 E W start_time ((index, r) # rest) s =
     (let s0 = emit Now s
      in if now E (trace s) - start_time > max_runtime
         then (case save_csv E (emit (Info MaxRuntimeSaving) s0) of
                 (Inl e, s1) \<Rightarrow> (Raised e, s1)
               | (Inr _, s1) \<Rightarrow> (Returned, s1))
         else if status r = Some (u ''Done'') then loop_cloud02 E W start_time rest s0
         else (case row_try_cloud02 E W index r (emit (Info (Processing (username r) (profile_url r))) s0) of
                 (Inl e, s1) \<Rightarrow> loop_cloud02 E W start_time rest (emit (Error (RowError (profile_url r) e)) s1)
               | (Inr _, s1) \<Rightarrow> loop_cloud02 E W start_time rest s1))"

text \<open>\<^verbatim>\<open>for index, row in input_df.iterrows()\<close>, on the frame as it is when the loop starts.\<close>

definition for_rows_GHES :: "env \<Rightarrow> (nat \<Rightarrow> bool) \<Rightarrow> int \<Rightarrow> state \<Rightarrow> loop_end \<times> state" where
  "for_rows_GHES E W start_time s = loop_GHES E W start_time (enumerate 0 (input_df s)) s"

definition for_rows_cloud02 :: "env \<Rightarrow> (nat \<Rightarrow> bool) \<Rightarrow> int \<Rightarrow> state \<Rightarrow> loop_end \<times> state" where
  "for_rows_cloud02 E W start_time s = loop_cloud02 E W start_time (enumerate 0 (input_df s)) s"

section \<open>Observations on traces and concrete environments\<close>

fun rotations :: "event list \<Rightarrow> nat" where
  "rotations [] = 0"
| "rotations (Info (SwitchedKey i) # es) = Suc (rotations es)"
| "rotations (e # es) = rotations es"

fun infos :: "event list \<Rightarrow> logmsg list" where
  "infos [] = []"
| "infos (Info m # es) = m # infos es"
| "infos (e # es) = infos es"

fun http_gets :: "event list \<Rightarrow> (client \<times> str) list" where
  "http_gets [] = []"
| "http_gets (HttpGet c url hdr # es) = (c, url) # http_gets es"
| "http_gets (e # es) = http_gets es"

fun clock_reads :: "event list \<Rightarrow> nat" where
  "clock_reads [] = 0"
| "clock_reads (Now # es) = Suc (clock_reads es)"
| "clock_reads (e # es) = clock_reads es"

definition fixture :: "(nat \<Rightarrow> exn + response) \<Rightarrow> (nat \<Rightarrow> int) \<Rightarrow> (gcall \<Rightarrow> exn option) \<Rightarrow> exn option \<Rightarrow> env" where
  "fixture web clk gs csv =
     \<lparr>http_get = (\<lambda>tr c url hdr. web (length (http_gets tr))),
      now = (\<lambda>tr. clk (clock_reads tr)),
      sheet_titles = (\<lambda>tr. Inr []),
      column_a_len = (\<lambda>tr nm. Inr 0),
      sheets_exec = (\<lambda>tr. gs),
      to_csv = (\<lambda>tr df. csv)\<rparr>"

definition quota :: "int \<Rightarrow> exn + response" where
  "quota v = Inr \<lparr>status_code = 200, body_text = [], rate_remaining = Some v, email_field = None\<rparr>"

definition start :: "str list \<Rightarrow> row list \<Rightarrow> state" where
  "start keys df = \<lparr>github_api_handler = init_handler keys, input_df = df, trace = []\<rparr>"


definition recovering_env :: env where
  "recovering_env = fixture (\<lambda>i. if i = 1 then quota 50 else quota 5) (\<lambda>i. 0) (\<lambda>c. None) None"


definition exhausted_env :: env where
  "exhausted_env = fixture (\<lambda>i. quota 3) (\<lambda>i. 0) (\<lambda>c. None) None"


definition healthy_env :: env where
  "healthy_env = fixture (\<lambda>i. quota 50) (\<lambda>i. 0) (\<lambda>c. None) None"


fun errors :: "event list \<Rightarrow> logmsg list" where
  "errors [] = []"
| "errors (Error m # es) = m # errors es"
| "errors (e # es) = errors es"

definition alice_env :: env where
  "alice_env =
     fixture
       (\<lambda>i. if i = 0 then quota 50
            else if i = 1
            then Inr \<lparr>status_code = 200, body_text = [], rate_remaining = None, email_field = Some (JStr [])\<rparr>
            else Inr \<lparr>status_code = 200, body_text = u ''write to <alice@example.com>'',
                      rate_remaining = None, email_field = None\<rparr>)
       (\<lambda>i. 0) (\<lambda>c. None) None"

definition profile_with_email :: "exn + response" where
  "profile_with_email =
     Inr \<lparr>status_code = 200, body_text = [], rate_remaining = None,
          email_field = Some (JStr (u ''alice@example.com''))\<rparr>"

definition failing_sink_env :: env where
  "failing_sink_env =
     fixture (\<lambda>i. if even i then quota 50 else profile_with_email) (\<lambda>i. 0)
       (\<lambda>c. case c of UpdateRow nm n data \<Rightarrow> Some HttpError | _ \<Rightarrow> None) None"

definition alice_row :: row where
  "alice_row = \<lparr>username = Some (u ''alice''), user_id = Some (u ''1''),
                profile_url = Some (u ''https://github.com/alice''), status = Some [], email = Some []\<rparr>"

definition bob_row :: row where
  "bob_row = \<lparr>username = Some (u ''bob''), user_id = Some (u ''2''),
              profile_url = Some (u ''https://github.com/bob''), status = Some [], email = Some []\<rparr>"



definition late_env :: env where
  "late_env = fixture (\<lambda>i. quota 50) (\<lambda>i. max_runtime + 1) (\<lambda>c. None) None"

definition done_row :: row where
  "done_row = \<lparr>username = Some (u ''carol''), user_id = Some (u ''3''),
               profile_url = Some (u ''https://github.com/carol''), status = Some (u ''Done''),
               email = Some (u ''carol@example.com'')\<rparr>"


text \<open>
  The network calls of a trace: the HTTP requests and the calls of the Sheets client.
  Clock reads, log lines, sleeps and the save of the local CSV file are not network calls.
\<close>

fun is_network :: "event \<Rightarrow> bool" where
  "is_network (HttpGet c url hdr) = True"
| "is_network (Sheets c) = True"
| "is_network e = False"

definition network_calls :: "event list \<Rightarrow> event list" where
  "network_calls tr = filter is_network tr"

section \<open>Properties of the email extractor\<close>

lemma first_some_map_Some:
  "first_some (map f ks) = Some r \<Longrightarrow> \<exists>k \<in> set ks. f k = Some r"
  by (induction ks) (auto split: option.splits if_splits, (metis first_some.simps(2,3) option.exhaust option.inject)+)

lemma first_some_map_None:
  "first_some (map f ks) = None \<longleftrightarrow> (\<forall>k \<in> set ks. f k = None)"
proof (induction ks)
  case Nil
  then show ?case by simp
next
  case (Cons k ks)
  then show ?case by (cases "f k") auto
qed

lemma first_some_map_found:
  "k \<in> set ks \<Longrightarrow> f k = Some r \<Longrightarrow> \<exists>r'. first_some (map f ks) = Some r'"
  using first_some_map_None[of f ks] by (cases "first_some (map f ks)") auto

lemma le_length_takeWhile:
  "k \<le> length (takeWhile P s) \<longleftrightarrow> k \<le> length s \<and> (\<forall>x \<in> set (take k s). P x)"
proof (induction s arbitrary: k)
  case Nil
  then show ?case by simp
next
  case (Cons a s)
  then show ?case by (cases k) auto
qed

lemma mem_counts: "k \<in> set (rev [lo..<Suc hi]) \<longleftrightarrow> lo \<le> k \<and> k \<le> hi"
  by auto

lemma match_here_Repeat:
  "match_here W (Repeat cls lo # ns) prev s =
     first_some (map (\<lambda>k. map_option (\<lambda>r. k + r) (match_here W ns (prev_after prev s k) (drop k s)))
                     (rev [lo..<Suc (length (takeWhile (in_class cls) s))]))"
  by (simp add: Let_def)

lemma match_here_sound:
  "match_here W ns prev s = Some n \<Longrightarrow> matches W ns prev s n"
proof (induction ns arbitrary: prev s n)
  case Nil
  then show ?case by simp
next
  case (Cons a ns)
  show ?case
  proof (cases a)
    case Boundary
    with Cons show ?thesis by (auto split: if_splits)
  next
    case (Lit c)
    with Cons show ?thesis by (auto split: list.splits if_splits)
  next
    case (Repeat cls lo)
    let ?hi = "length (takeWhile (in_class cls) s)"
    from Cons.prems Repeat
    have "first_some (map (\<lambda>k. map_option (\<lambda>r. k + r) (match_here W ns (prev_after prev s k) (drop k s)))
                     (rev [lo..<Suc ?hi])) = Some n"
      by (simp only: match_here_Repeat)
    from first_some_map_Some[OF this]
    obtain k where k: "k \<in> set (rev [lo..<Suc ?hi])"
      and r: "map_option (\<lambda>r. k + r) (match_here W ns (prev_after prev s k) (drop k s)) = Some n"
      by blast
    from r obtain r' where r': "match_here W ns (prev_after prev s k) (drop k s) = Some r'" "n = k + r'"
      by auto
    from k have "lo \<le> k \<and> k \<le> ?hi" by (simp only: mem_counts)
    then have kb: "lo \<le> k" "k \<le> length s" "\<forall>x \<in> set (take k s). in_class cls x"
      by (simp_all add: le_length_takeWhile)
    from Cons.IH[OF r'(1)] have m: "matches W ns (prev_after prev s k) (drop k s) (n - k)"
      using r'(2) by simp
    from kb r'(2) have "k \<in> {lo..min n (length s)}" by simp
    with kb m Repeat show ?thesis by auto
  qed
qed

lemma match_here_complete:
  "matches W ns prev s n \<Longrightarrow> \<exists>n'. match_here W ns prev s = Some n'"
proof (induction ns arbitrary: prev s n)
  case Nil
  then show ?case by simp
next
  case (Cons a ns)
  show ?case
  proof (cases a)
    case Boundary
    with Cons show ?thesis by auto
  next
    case (Lit c)
    with Cons.prems obtain x xs where s: "s = x # xs" "x = of_char c" "matches W ns (Some x) xs (n - 1)"
      by (auto split: list.splits)
    from Cons.IH[OF s(3)] s Lit show ?thesis by auto
  next
    case (Repeat cls lo)
    let ?hi = "length (takeWhile (in_class cls) s)"
    let ?f = "\<lambda>k. map_option (\<lambda>r. k + r) (match_here W ns (prev_after prev s k) (drop k s))"
    from Cons.prems Repeat obtain k where k: "lo \<le> k" "k \<le> length s"
      "\<forall>x \<in> set (take k s). in_class cls x" "matches W ns (prev_after prev s k) (drop k s) (n - k)"
      by auto
    from k have "lo \<le> k \<and> k \<le> ?hi" by (simp add: le_length_takeWhile)
    then have "k \<in> set (rev [lo..<Suc ?hi])" by (simp only: mem_counts)
    moreover from Cons.IH[OF k(4)] obtain r where "?f k = Some r" by auto
    ultimately have "\<exists>n'. first_some (map ?f (rev [lo..<Suc ?hi])) = Some n'"
      by (rule first_some_map_found)
    then obtain n' where "first_some (map ?f (rev [lo..<Suc ?hi])) = Some n'" by blast
    then have "match_here W (Repeat cls lo # ns) prev s = Some n'" by (simp only: match_here_Repeat)
    with Repeat show ?thesis by blast
  qed
qed

lemma matches_length: "matches W ns prev s n \<Longrightarrow> n \<le> length s"
proof (induction ns arbitrary: prev s n)
  case Nil
  then show ?case by simp
next
  case (Cons a ns)
  show ?case
  proof (cases a)
    case Boundary
    with Cons show ?thesis by auto
  next
    case (Lit c)
    with Cons.prems obtain x xs where s: "s = x # xs" "0 < n" "matches W ns (Some x) xs (n - 1)"
      by (auto split: list.splits)
    from Cons.IH[OF s(3)] s show ?thesis by auto
  next
    case (Repeat cls lo)
    with Cons.prems obtain k where k: "k \<le> n" "k \<le> length s"
      "matches W ns (prev_after prev s k) (drop k s) (n - k)"
      by auto
    from Cons.IH[OF k(3)] k show ?thesis by auto
  qed
qed

lemma prev_after_0: "prev_after prev s 0 = prev"
  by (simp add: prev_after_def)

lemma prev_after_Cons: "0 < i \<Longrightarrow> prev_after prev (x # xs) i = prev_after (Some x) xs (i - 1)"
  by (cases i) (auto simp: prev_after_def nth_Cons split: nat.splits)

lemma findall_from_none:
  "(\<forall>i \<le> length s. match_here W p (prev_after prev s i) (drop i s) = None)
   \<Longrightarrow> findall_from W p 0 prev s = []"
proof (induction s arbitrary: prev)
  case Nil
  then show ?case by (simp add: prev_after_0)
next
  case (Cons x xs)
  from Cons.prems have z: "match_here W p prev (x # xs) = None"
    by (metis drop0 le0 prev_after_0)
  have "\<forall>i \<le> length xs. match_here W p (prev_after (Some x) xs i) (drop i xs) = None"
  proof (intro allI impI)
    fix i assume "i \<le> length xs"
    with Cons.prems have "match_here W p (prev_after prev (x # xs) (Suc i)) (drop (Suc i) (x # xs)) = None"
      by (metis Suc_le_mono length_Cons)
    then show "match_here W p (prev_after (Some x) xs i) (drop i xs) = None"
      by (simp add: prev_after_Cons)
  qed
  from Cons.IH[OF this] z show ?case by simp
qed

lemma findall_from_first:
  "i \<le> length s \<Longrightarrow>
   (\<forall>j < i. match_here W p (prev_after prev s j) (drop j s) = None) \<Longrightarrow>
   match_here W p (prev_after prev s i) (drop i s) = Some n \<Longrightarrow>
   \<exists>rest. findall_from W p 0 prev s = take n (drop i s) # rest"
proof (induction s arbitrary: prev i)
  case Nil
  then show ?case by (simp add: prev_after_0)
next
  case (Cons x xs)
  show ?case
  proof (cases i)
    case 0
    with Cons.prems(3) show ?thesis by (simp add: prev_after_0)
  next
    case (Suc i')
    with Cons.prems(2) have z: "match_here W p prev (x # xs) = None"
      by (metis drop0 zero_less_Suc prev_after_0)
    have a: "i' \<le> length xs" using Cons.prems(1) Suc by simp
    have b: "\<forall>j < i'. match_here W p (prev_after (Some x) xs j) (drop j xs) = None"
    proof (intro allI impI)
      fix j assume "j < i'"
      with Cons.prems(2) Suc
      have "match_here W p (prev_after prev (x # xs) (Suc j)) (drop (Suc j) (x # xs)) = None"
        by (metis Suc_less_eq)
      then show "match_here W p (prev_after (Some x) xs j) (drop j xs) = None"
        by (simp add: prev_after_Cons)
    qed
    have c: "match_here W p (prev_after (Some x) xs i') (drop i' xs) = Some n"
      using Cons.prems(3) Suc by (simp add: prev_after_Cons)
    from Cons.IH[OF a b c] z Suc show ?thesis by simp
  qed
qed

lemma matches_snoc_Boundary:
  "matches W (ns @ [Boundary]) prev s n \<Longrightarrow>
   matches W ns prev s n \<and> at_boundary W (prev_after prev s n) (drop n s)"
proof (induction ns arbitrary: prev s n)
  case Nil
  then show ?case by (simp add: prev_after_0)
next
  case (Cons a ns)
  show ?case
  proof (cases a)
    case Boundary
    with Cons show ?thesis by auto
  next
    case (Lit c)
    with Cons.prems obtain x xs where s: "s = x # xs" "x = of_char c" "0 < n"
      "matches W (ns @ [Boundary]) (Some x) xs (n - 1)"
      by (auto split: list.splits)
    from s(3) obtain n' where n: "n = Suc n'" by (cases n) auto
    from Cons.IH[OF s(4)] s n Lit show ?thesis by (simp add: prev_after_Cons)
  next
    case (Repeat cls lo)
    with Cons.prems obtain k where k: "lo \<le> k" "k \<le> n" "k \<le> length s"
      "\<forall>x \<in> set (take k s). in_class cls x"
      "matches W (ns @ [Boundary]) (prev_after prev s k) (drop k s) (n - k)"
      by auto
    from Cons.IH[OF k(5)]
    have m: "matches W ns (prev_after prev s k) (drop k s) (n - k)"
      and b: "at_boundary W (prev_after (prev_after prev s k) (drop k s) (n - k)) (drop (n - k) (drop k s))"
      by simp_all
    have "prev_after (prev_after prev s k) (drop k s) (n - k) = prev_after prev s n"
      using k(2,3) matches_length[OF m] by (auto simp: prev_after_def)
    with b k(2) have "at_boundary W (prev_after prev s n) (drop n s)" by simp
    moreover from k m Repeat have "matches W (a # ns) prev s n" by auto
    ultimately show ?thesis by simp
  qed
qed

lemma matches_take:
  "Boundary \<notin> set ns \<Longrightarrow> matches W ns prev s n \<Longrightarrow> matches W' ns prev' (take n s) n"
proof (induction ns arbitrary: prev prev' s n)
  case Nil
  then show ?case by simp
next
  case (Cons a ns)
  show ?case
  proof (cases a)
    case Boundary
    with Cons.prems show ?thesis by simp
  next
    case (Lit c)
    with Cons.prems obtain x xs where s: "s = x # xs" "x = of_char c" "0 < n"
      "matches W ns (Some x) xs (n - 1)"
      by (auto split: list.splits)
    from Cons.prems(1) have nb: "Boundary \<notin> set ns" by simp
    from s(3) obtain n' where n: "n = Suc n'" by (cases n) auto
    from Cons.IH[OF nb s(4), of "Some x"] s n Lit show ?thesis by simp
  next
    case (Repeat cls lo)
    with Cons.prems obtain k where k: "lo \<le> k" "k \<le> n" "k \<le> length s"
      "\<forall>x \<in> set (take k s). in_class cls x"
      "matches W ns (prev_after prev s k) (drop k s) (n - k)"
      by auto
    from Cons.prems(1) have nb: "Boundary \<notin> set ns" by simp
    from Cons.IH[OF nb k(5), of "prev_after prev' (take n s) k"]
    have "matches W' ns (prev_after prev' (take n s) k) (take (n - k) (drop k s)) (n - k)" .
    moreover have "take (n - k) (drop k s) = drop k (take n s)"
      using k(2) by (simp add: drop_take)
    moreover have "take k (take n s) = take k s" using k(2) by (simp add: min_def)
    moreover have "k \<le> length (take n s)" using k(2,3) by simp
    ultimately show ?thesis using k Repeat by auto
  qed
qed

lemma matches_chars:
  "matches W ns prev s n \<Longrightarrow> \<forall>x \<in> set (take n s). \<exists>nd \<in> set ns. node_char nd x"
proof (induction ns arbitrary: prev s n)
  case Nil
  then show ?case by simp
next
  case (Cons a ns)
  show ?case
  proof (cases a)
    case Boundary
    with Cons show ?thesis by auto
  next
    case (Lit c)
    with Cons.prems obtain x xs where s: "s = x # xs" "x = of_char c" "0 < n"
      "matches W ns (Some x) xs (n - 1)"
      by (auto split: list.splits)
    from s(3) obtain n' where n: "n = Suc n'" by (cases n) auto
    from Cons.IH[OF s(4)] s n Lit show ?thesis by auto
  next
    case (Repeat cls lo)
    with Cons.prems obtain k where k: "lo \<le> k" "k \<le> n" "k \<le> length s"
      "\<forall>x \<in> set (take k s). in_class cls x"
      "matches W ns (prev_after prev s k) (drop k s) (n - k)"
      by auto
    have "take n s = take k s @ take (n - k) (drop k s)"
      using k(2) by (metis le_add_diff_inverse take_add)
    with Cons.IH[OF k(5)] k(4) Repeat show ?thesis by auto
  qed
qed


lemma u_Cons: "u (c # cs) = of_char c # u cs" and u_Nil: "u [] = []"
  by (simp_all add: u_def)

lemmas class_defs = in_class_def local_class_def domain_class_def tld_class_def is_word_def
  at_boundary_def word_before_def word_here_def


lemma findall_from_cases:
  "(findall_from W p 0 prev s = []
      \<and> (\<forall>i \<le> length s. match_here W p (prev_after prev s i) (drop i s) = None))
   \<or> (\<exists>i n rest. i \<le> length s
         \<and> (\<forall>j < i. match_here W p (prev_after prev s j) (drop j s) = None)
         \<and> match_here W p (prev_after prev s i) (drop i s) = Some n
         \<and> findall_from W p 0 prev s = take n (drop i s) # rest)"
proof (cases "\<exists>i \<le> length s. match_here W p (prev_after prev s i) (drop i s) \<noteq> None")
  case False
  then have a: "\<forall>i \<le> length s. match_here W p (prev_after prev s i) (drop i s) = None" by blast
  from findall_from_none[OF a] a show ?thesis by blast
next
  case True
  define Q where "Q i = (i \<le> length s \<and> match_here W p (prev_after prev s i) (drop i s) \<noteq> None)" for i
  from True have "\<exists>i. Q i" by (auto simp: Q_def)
  then obtain i where i: "Q i" "\<forall>j < i. \<not> Q j"
    using exists_least_iff[of Q] by blast
  from i(1) obtain n where n: "i \<le> length s" "match_here W p (prev_after prev s i) (drop i s) = Some n"
    by (auto simp: Q_def)
  have z: "\<forall>j < i. match_here W p (prev_after prev s j) (drop j s) = None"
  proof (intro allI impI)
    fix j assume "j < i"
    with i(2) n(1) have "\<not> Q j" "j \<le> length s" by auto
    then show "match_here W p (prev_after prev s j) (drop j s) = None" by (simp add: Q_def)
  qed
  from findall_from_first[OF n(1) z n(2)] n z show ?thesis by blast
qed

lemma match_here_None_iff:
  "match_here W p prev s = None \<longleftrightarrow> (\<forall>n. \<not> matches W p prev s n)"
  using match_here_sound match_here_complete by (metis option.distinct(1) option.exhaust)


lemma extract_email_Some:
  assumes "extract_email W text = Some r"
  shows "\<exists>i n rest. i + n \<le> length text \<and> match_at W pattern text i n
           \<and> (\<forall>j < i. \<forall>n'. \<not> match_at W pattern text j n')
           \<and> re_findall W pattern text = take n (drop i text) # rest
           \<and> r = strip (34 # u ''<>[]()'') (take n (drop i text))"
proof -
  from assms have ne: "re_findall W pattern text \<noteq> []"
    by (auto simp: extract_email_def split: list.splits)
  with findall_from_cases[of W "pattern" None "text"]
  obtain i n rest where f: "i \<le> length text"
    "\<forall>j < i. match_here W pattern (prev_after None text j) (drop j text) = None"
    "match_here W pattern (prev_after None text i) (drop i text) = Some n"
    "re_findall W pattern text = take n (drop i text) # rest"
    by (auto simp: re_findall_def)
  from match_here_sound[OF f(3)] have m: "match_at W pattern text i n" by (simp add: match_at_def)
  then have "n \<le> length (drop i text)" unfolding match_at_def by (rule matches_length)
  with f(1) have b: "i + n \<le> length text" by simp
  from f(2) have z: "\<forall>j < i. \<forall>n'. \<not> match_at W pattern text j n'"
    by (simp add: match_here_None_iff match_at_def)
  from assms f(4) have "r = strip (34 # u ''<>[]()'') (take n (drop i text))"
    by (simp add: extract_email_def)
  with b m z f(4) show ?thesis by blast
qed

lemma strip_id: "(\<forall>x \<in> set s. x \<notin> set chars) \<Longrightarrow> strip chars s = s"
proof -
  assume a: "\<forall>x \<in> set s. x \<notin> set chars"
  have d: "dropWhile (\<lambda>x. x \<in> set chars) t = t" if "\<forall>x \<in> set t. x \<notin> set chars" for t
    using that by (cases t) auto
  from a have "dropWhile (\<lambda>x. x \<in> set chars) s = s" by (rule d)
  moreover from a have "dropWhile (\<lambda>x. x \<in> set chars) (rev s) = rev s"
    by (intro d) simp
  ultimately show ?thesis by (simp add: strip_def)
qed

lemma pattern_chars_not_stripped:
  "nd \<in> set pattern \<Longrightarrow> node_char nd x \<Longrightarrow> x \<notin> set (34 # u ''<>[]()'')"
  by (auto simp: pattern_def class_defs u_Cons u_Nil)

lemma pattern_core: "pattern = Boundary # core @ [Boundary]"
  by (simp add: pattern_def core_def)

lemma match_unstripped:
  assumes "matches W pattern prev s n"
  shows "\<forall>x \<in> set (take n s). x \<notin> set (34 # u ''<>[]()'')"
  using matches_chars[OF assms] pattern_chars_not_stripped by blast

lemma match_core:
  assumes "matches W pattern prev s n"
  shows "fullmatch W' core (take n s)"
proof -
  from assms have "matches W (core @ [Boundary]) prev s n" by (simp add: pattern_core)
  then have c: "matches W core prev s n" by (auto dest: matches_snoc_Boundary)
  have "Boundary \<notin> set core" by (simp add: core_def)
  from matches_length[OF c] have "length (take n s) = n" by simp
  with matches_take[OF \<open>Boundary \<notin> set core\<close> c, of W' None]
  show ?thesis by (simp only: fullmatch_def)
qed

lemma fullmatch_pattern_end:
  assumes "fullmatch W pattern s"
  shows "s \<noteq> [] \<and> is_word W (last s)"
proof -
  from assms have "matches W (Boundary # core @ [Boundary]) None s (length s)"
    by (simp only: fullmatch_def pattern_core)
  then have "matches W (core @ [Boundary]) None s (length s)" by simp
  from matches_snoc_Boundary[OF this]
  have "word_before W (prev_after None s (length s))"
    by (simp add: at_boundary_def word_here_def)
  then show ?thesis
    by (cases "s = []") (auto simp: word_before_def prev_after_def last_conv_nth)
qed






















lemma core_shape:
  assumes "fullmatch W core r"
  shows "\<exists>l d t. r = l @ 64 # d @ 46 # t
           \<and> l \<noteq> [] \<and> (\<forall>x \<in> set l. in_class local_class x)
           \<and> d \<noteq> [] \<and> (\<forall>x \<in> set d. in_class domain_class x)
           \<and> 2 \<le> length t \<and> (\<forall>x \<in> set t. in_class tld_class x)"
proof -
  let ?n = "length r"
  from assms have m: "matches W (Repeat local_class 1 # Lit CHR ''@'' # Repeat domain_class 1
                         # Lit CHR ''.'' # [Repeat tld_class 2]) None r ?n"
    by (simp only: fullmatch_def core_def)
  then obtain k1 where k1: "1 \<le> k1" "k1 \<le> ?n" "\<forall>x \<in> set (take k1 r). in_class local_class x"
    and m1: "matches W (Lit CHR ''@'' # Repeat domain_class 1 # Lit CHR ''.'' # [Repeat tld_class 2])
               (prev_after None r k1) (drop k1 r) (?n - k1)"
    by auto
  from m1 obtain xs where xs: "drop k1 r = 64 # xs"
    and m2: "matches W (Repeat domain_class 1 # Lit CHR ''.'' # [Repeat tld_class 2]) (Some 64) xs (?n - k1 - 1)"
    by (auto split: list.splits)
  from m2 obtain k2 where k2: "1 \<le> k2" "k2 \<le> length xs" "\<forall>x \<in> set (take k2 xs). in_class domain_class x"
    and m3: "matches W (Lit CHR ''.'' # [Repeat tld_class 2]) (prev_after (Some 64) xs k2) (drop k2 xs) (?n - k1 - 1 - k2)"
    by auto
  from m3 obtain ys where ys: "drop k2 xs = 46 # ys"
    and m4: "matches W [Repeat tld_class 2] (Some 46) ys (?n - k1 - 1 - k2 - 1)"
    by (auto split: list.splits)
  from m4 obtain k3 where k3: "2 \<le> k3" "k3 \<le> length ys" "\<forall>x \<in> set (take k3 ys). in_class tld_class x"
    and e: "?n - k1 - 1 - k2 - 1 - k3 = 0"
    by auto
  have r1: "r = take k1 r @ 64 # xs" using xs by (metis append_take_drop_id)
  have x1: "xs = take k2 xs @ 46 # ys" using ys by (metis append_take_drop_id)
  have "?n = k1 + 1 + length xs" using xs k1(2)
    by (metis One_nat_def add.assoc add_Suc_right length_Cons length_drop le_add_diff_inverse plus_1_eq_Suc add.commute)
  moreover have "length xs = k2 + 1 + length ys" using ys k2(2)
    by (metis One_nat_def add.assoc add_Suc_right length_Cons length_drop le_add_diff_inverse plus_1_eq_Suc add.commute)
  ultimately have "length ys \<le> k3" using e by simp
  with k3(2) have t: "take k3 ys = ys" by simp
  have "r = take k1 r @ 64 # take k2 xs @ 46 # ys" using r1 x1 by simp
  moreover have "take k1 r \<noteq> []" using k1 by auto
  moreover have "take k2 xs \<noteq> []" using k2 by auto
  moreover have "2 \<le> length ys" using k3 by simp
  moreover have "\<forall>x \<in> set ys. in_class tld_class x" using k3(3) t by simp
  ultimately show ?thesis using k1(3) k2(3) by blast
qed

lemma fullmatch_pattern_start:
  assumes "fullmatch W pattern s"
  shows "s \<noteq> [] \<and> is_word W (hd s)"
proof -
  from assms have "matches W (Boundary # core @ [Boundary]) None s (length s)"
    by (simp only: fullmatch_def pattern_core)
  then have "at_boundary W None s" by simp
  then show ?thesis
    by (cases s) (auto simp: at_boundary_def word_before_def word_here_def)
qed

text \<open>
  C10, as stated, fails: on \<^verbatim>\<open>a@b.cd|9\<close> the function returns \<^verbatim>\<open>a@b.cd|\<close>, which does not
  match the pattern as a whole, because the final \<^verbatim>\<open>\b\<close> held only thanks to the following
  \<^verbatim>\<open>9\<close>. Likewise, after a non-ASCII letter (here code point 233) the match may begin with a
  dot, and the initial \<^verbatim>\<open>\b\<close> fails on the returned string alone.
\<close>

theorem extract_email_result_not_fullmatch:
  "extract_email (\<lambda>x. False) (u ''a@b.cd|9'') = Some (u ''a@b.cd|'')
   \<and> \<not> fullmatch (\<lambda>x. False) pattern (u ''a@b.cd|'')
   \<and> extract_email (\<lambda>x. x = 233) (233 # u ''.a@b.cd'') = Some (u ''.a@b.cd'')
   \<and> \<not> fullmatch (\<lambda>x. x = 233) pattern (u ''.a@b.cd'')"
proof (intro conjI)
  show "extract_email (\<lambda>x. False) (u ''a@b.cd|9'') = Some (u ''a@b.cd|'')"
    by (simp add: extract_email_def re_findall_def strip_def pattern_def u_Cons u_Nil class_defs prev_after_def Let_def)
  show "\<not> fullmatch (\<lambda>x. False) pattern (u ''a@b.cd|'')"
  proof
    assume "fullmatch (\<lambda>x. False) pattern (u ''a@b.cd|'')"
    from fullmatch_pattern_end[OF this] show False
      by (simp add: u_Cons u_Nil class_defs)
  qed
  show "extract_email (\<lambda>x. x = 233) (233 # u ''.a@b.cd'') = Some (u ''.a@b.cd'')"
    by (simp add: extract_email_def re_findall_def strip_def pattern_def u_Cons u_Nil class_defs prev_after_def Let_def)
  show "\<not> fullmatch (\<lambda>x. x = 233) pattern (u ''.a@b.cd'')"
  proof
    assume "fullmatch (\<lambda>x. x = 233) pattern (u ''.a@b.cd'')"
    from fullmatch_pattern_start[OF this] show False
      by (simp add: u_Cons u_Nil class_defs)
  qed
qed

text \<open>
  C10, amended: whenever \<^verbatim>\<open>extract_email\<close> returns a string, that string is the raw first
  match of \<^verbatim>\<open>re.findall\<close>: none of the characters \<^verbatim>\<open>" < > [ ] ( )\<close> occurs in it, so the
  stripping is a no-op. The string matches the pattern without its two \<^verbatim>\<open>\b\<close> assertions:
  it is a non-empty local part over \<^verbatim>\<open>[A-Za-z0-9._%+-]\<close>, an \<^verbatim>\<open>@\<close>, a non-empty domain over
  \<^verbatim>\<open>[A-Za-z0-9.-]\<close>, a dot, and two or more characters of \<^verbatim>\<open>[A-Z|a-z]\<close>.
\<close>

theorem extract_email_unstripped:
  "\<forall>W doc r. extract_email W doc = Some r \<longrightarrow>
     (\<exists>rest. re_findall W pattern doc = r # rest)
     \<and> strip (34 # u ''<>[]()'') r = r
     \<and> (\<forall>x \<in> set r. x \<notin> set (34 # u ''<>[]()''))
     \<and> fullmatch W core r
     \<and> (\<exists>l d t. r = l @ 64 # d @ 46 # t
           \<and> l \<noteq> [] \<and> (\<forall>x \<in> set l. in_class local_class x)
           \<and> d \<noteq> [] \<and> (\<forall>x \<in> set d. in_class domain_class x)
           \<and> 2 \<le> length t \<and> (\<forall>x \<in> set t. in_class tld_class x))"
proof (intro allI impI)
  fix W doc r
  assume "extract_email W doc = Some r"
  from extract_email_Some[OF this] obtain i n rest where
    m: "match_at W pattern doc i n"
    and f: "re_findall W pattern doc = take n (drop i doc) # rest"
    and r: "r = strip (34 # u ''<>[]()'') (take n (drop i doc))"
    by blast
  let ?m = "take n (drop i doc)"
  from m have mm: "matches W pattern (prev_after None doc i) (drop i doc) n" by (simp add: match_at_def)
  from match_unstripped[OF mm] have ns: "\<forall>x \<in> set ?m. x \<notin> set (34 # u ''<>[]()'')" .
  then have id: "strip (34 # u ''<>[]()'') ?m = ?m" by (rule strip_id)
  with r have e: "r = ?m" by simp
  from match_core[OF mm] have c: "fullmatch W core ?m" .
  from core_shape[OF c] e have sh: "\<exists>l d t. r = l @ 64 # d @ 46 # t
           \<and> l \<noteq> [] \<and> (\<forall>x \<in> set l. in_class local_class x)
           \<and> d \<noteq> [] \<and> (\<forall>x \<in> set d. in_class domain_class x)
           \<and> 2 \<le> length t \<and> (\<forall>x \<in> set t. in_class tld_class x)"
    by simp
  from e f ns id c have "(\<exists>rest. re_findall W pattern doc = r # rest)
     \<and> strip (34 # u ''<>[]()'') r = r
     \<and> (\<forall>x \<in> set r. x \<notin> set (34 # u ''<>[]()''))
     \<and> fullmatch W core r"
    by simp
  with sh show "(\<exists>rest. re_findall W pattern doc = r # rest)
     \<and> strip (34 # u ''<>[]()'') r = r
     \<and> (\<forall>x \<in> set r. x \<notin> set (34 # u ''<>[]()''))
     \<and> fullmatch W core r
     \<and> (\<exists>l d t. r = l @ 64 # d @ 46 # t
           \<and> l \<noteq> [] \<and> (\<forall>x \<in> set l. in_class local_class x)
           \<and> d \<noteq> [] \<and> (\<forall>x \<in> set d. in_class domain_class x)
           \<and> 2 \<le> length t \<and> (\<forall>x \<in> set t. in_class tld_class x))"
    by blast
qed

lemma extract_email_bar:
  "extract_email (\<lambda>x. False) (u ''a@b.cd|9'') = Some (u ''a@b.cd|'')"
  by (simp add: extract_email_def re_findall_def strip_def pattern_def u_Cons u_Nil class_defs prev_after_def Let_def)

theorem extract_email_unstripped_witness:
  "extract_email (\<lambda>x. False) (u ''a@b.cd|9'') = Some (u ''a@b.cd|'')
   \<and> (\<exists>rest. re_findall (\<lambda>x. False) pattern (u ''a@b.cd|9'') = u ''a@b.cd|'' # rest)
   \<and> strip (34 # u ''<>[]()'') (u ''a@b.cd|'') = u ''a@b.cd|''
   \<and> fullmatch (\<lambda>x. False) core (u ''a@b.cd|'')"
  using extract_email_unstripped extract_email_bar by blast

section \<open>Properties of the key rotation\<close>

lemma cooldowns_append: "cooldowns (xs @ ys) = cooldowns xs @ cooldowns ys"
  by (induction xs rule: cooldowns.induct) auto

lemma get_remaining_requests_frame:
  assumes "get_remaining_requests E s = (r, s1)"
  shows "github_api_handler s1 = github_api_handler s \<and> input_df s1 = input_df s
         \<and> cooldowns (trace s1) = cooldowns (trace s)"
  using assms
  by (auto simp: get_remaining_requests_def requests_get_def emit_def cooldowns_append
           split: sum.splits if_splits option.splits prod.splits)

lemma get_remaining_requests_pool:
  assumes "get_remaining_requests E s = (Inr v, s1)"
  shows "current_key_index (github_api_handler s) < length (api_keys (github_api_handler s))"
  using assms
  by (auto simp: get_remaining_requests_def get_headers_def split: sum.splits if_splits)

lemma check_and_switch_key_low:
  assumes "get_remaining_requests E s = (Inr v, s1)" and "v < 10"
  shows "\<exists>s'. check_and_switch_key E s = (Inr (), s')
           \<and> api_keys (github_api_handler s') = api_keys (github_api_handler s)
           \<and> input_df s' = input_df s
           \<and> current_key_index (github_api_handler s')
               = (current_key_index (github_api_handler s) + 1) mod length (api_keys (github_api_handler s))
           \<and> (if failed_attempts (github_api_handler s) + 1 \<ge> 18
               then failed_attempts (github_api_handler s') = 0
                    \<and> cooldowns (trace s') = cooldowns (trace s) @ [3900]
               else failed_attempts (github_api_handler s') = failed_attempts (github_api_handler s) + 1
                    \<and> cooldowns (trace s') = cooldowns (trace s))"
proof -
  from get_remaining_requests_frame[OF assms(1)] get_remaining_requests_pool[OF assms(1)]
  have f: "github_api_handler s1 = github_api_handler s" "input_df s1 = input_df s"
    "cooldowns (trace s1) = cooldowns (trace s)" "api_keys (github_api_handler s) \<noteq> []"
    by auto
  show ?thesis
    using assms f
    by (simp add: check_and_switch_key_def emit_def cooldowns_append Let_def)
qed

lemma check_and_switch_key_high:
  assumes "get_remaining_requests E s = (Inr v, s1)" and "\<not> v < 10"
  shows "check_and_switch_key E s = (Inr (), emit (Info (RemainingRequests v)) s1)"
  using assms by (simp add: check_and_switch_key_def Let_def)

lemma probe_low_remaining:
  assumes "\<forall>tr url hd. \<exists>r. http_get E tr Resilient url hd = Inr r \<and>
       (status_code r = 200 \<longrightarrow> (\<exists>v<10. rate_remaining r = Some v))"
    and "current_key_index (github_api_handler s) < length (api_keys (github_api_handler s))"
  shows "\<exists>v s1. get_remaining_requests E s = (Inr v, s1) \<and> v < 10"
proof -
  let ?hd = "u ''token '' @ api_keys (github_api_handler s) ! current_key_index (github_api_handler s)"
  from assms(1) obtain r where r: "http_get E (trace s) Resilient (u ''https://api.github.com/rate_limit'') ?hd = Inr r"
    "status_code r = 200 \<longrightarrow> (\<exists>v<10. rate_remaining r = Some v)" by blast
  show ?thesis
    using r assms(2)
    by (auto simp: get_remaining_requests_def get_headers_def requests_get_def)
qed

lemma check_and_switch_key_times_low:
  assumes "\<forall>tr url hd. \<exists>r. http_get E tr Resilient url hd = Inr r \<and>
       (status_code r = 200 \<longrightarrow> (\<exists>v<10. rate_remaining r = Some v))"
    and "current_key_index (github_api_handler s) < length (api_keys (github_api_handler s))"
    and "failed_attempts (github_api_handler s) < 18"
  shows "\<exists>s'. check_and_switch_key_times E k s = (Inr (), s')
           \<and> api_keys (github_api_handler s') = api_keys (github_api_handler s)
           \<and> current_key_index (github_api_handler s')
               = (current_key_index (github_api_handler s) + k) mod length (api_keys (github_api_handler s))
           \<and> failed_attempts (github_api_handler s') = (failed_attempts (github_api_handler s) + k) mod 18
           \<and> cooldowns (trace s')
               = cooldowns (trace s) @ replicate ((failed_attempts (github_api_handler s) + k) div 18) 3900"
  using assms(2,3)
proof (induction k arbitrary: s)
  case 0
  then show ?case by simp
next
  case (Suc k)
  let ?h = "github_api_handler s"
  let ?n = "length (api_keys ?h)"
  from probe_low_remaining[OF assms(1) Suc.prems(1)]
  obtain v s1 where p: "get_remaining_requests E s = (Inr v, s1)" "v < 10" by blast
  from check_and_switch_key_low[OF p] obtain s2 where
    c: "check_and_switch_key E s = (Inr (), s2)"
    and k: "api_keys (github_api_handler s2) = api_keys ?h"
    and i: "current_key_index (github_api_handler s2) = (current_key_index ?h + 1) mod ?n"
    and f: "if failed_attempts ?h + 1 \<ge> 18
            then failed_attempts (github_api_handler s2) = 0 \<and> cooldowns (trace s2) = cooldowns (trace s) @ [3900]
            else failed_attempts (github_api_handler s2) = failed_attempts ?h + 1 \<and> cooldowns (trace s2) = cooldowns (trace s)"
    by blast
  have i2: "current_key_index (github_api_handler s2) < length (api_keys (github_api_handler s2))"
  proof -
    from Suc.prems(1) have "0 < ?n" by (cases "api_keys ?h") auto
    then have "(current_key_index ?h + 1) mod ?n < ?n" by (rule mod_less_divisor)
    with i k show ?thesis by simp
  qed
  have f2: "failed_attempts (github_api_handler s2) < 18"
    using f Suc.prems(2) by (auto split: if_splits)
  from Suc.IH[OF i2 f2] obtain s' where
    r: "check_and_switch_key_times E k s2 = (Inr (), s')"
    and k': "api_keys (github_api_handler s') = api_keys (github_api_handler s2)"
    and i': "current_key_index (github_api_handler s')
               = (current_key_index (github_api_handler s2) + k) mod length (api_keys (github_api_handler s2))"
    and f': "failed_attempts (github_api_handler s') = (failed_attempts (github_api_handler s2) + k) mod 18"
    and c': "cooldowns (trace s')
               = cooldowns (trace s2) @ replicate ((failed_attempts (github_api_handler s2) + k) div 18) 3900"
    by blast
  have "check_and_switch_key_times E (Suc k) s = (Inr (), s')"
    using c r by simp
  moreover have "api_keys (github_api_handler s') = api_keys ?h" using k k' by simp
  moreover have "current_key_index (github_api_handler s') = (current_key_index ?h + Suc k) mod ?n"
    using i i' k by (simp add: mod_add_left_eq add.assoc)
  moreover have "failed_attempts (github_api_handler s') = (failed_attempts ?h + Suc k) mod 18"
  proof (cases "failed_attempts ?h + 1 \<ge> 18")
    case True
    with Suc.prems(2) have e: "failed_attempts ?h = 17" by simp
    from True f have "failed_attempts (github_api_handler s2) = 0" by simp
    with f' e show ?thesis by simp
  next
    case False
    with f have "failed_attempts (github_api_handler s2) = failed_attempts ?h + 1" by simp
    with f' show ?thesis by simp
  qed
  moreover have "cooldowns (trace s')
        = cooldowns (trace s) @ replicate ((failed_attempts ?h + Suc k) div 18) 3900"
  proof (cases "failed_attempts ?h + 1 \<ge> 18")
    case True
    with Suc.prems(2) have e: "failed_attempts ?h = 17" by simp
    from True f have z: "failed_attempts (github_api_handler s2) = 0"
      "cooldowns (trace s2) = cooldowns (trace s) @ [3900]" by simp_all
    have "(17 + Suc k) div 18 = Suc (k div 18)" by simp
    with c' z e show ?thesis by simp
  next
    case False
    with f have "failed_attempts (github_api_handler s2) = failed_attempts ?h + 1"
      "cooldowns (trace s2) = cooldowns (trace s)" by simp_all
    with c' show ?thesis by simp
  qed
  ultimately show ?case by blast
qed

lemma rotations_append: "rotations (xs @ ys) = rotations xs + rotations ys"
  by (induction xs rule: rotations.induct) auto

lemma get_remaining_requests_rotations:
  assumes "get_remaining_requests E s = (r, s1)"
  shows "github_api_handler s1 = github_api_handler s \<and> rotations (trace s1) = rotations (trace s)"
  using assms
  by (auto simp: get_remaining_requests_def requests_get_def emit_def rotations_append
           split: sum.splits if_splits option.splits prod.splits)

lemma check_and_switch_key_counts:
  assumes "failed_attempts (github_api_handler s) < 18"
    and "failed_attempts (github_api_handler s) = (c + rotations (trace s)) mod 18"
    and "check_and_switch_key E s = (r, s')"
  shows "failed_attempts (github_api_handler s') < 18
       \<and> failed_attempts (github_api_handler s') = (c + rotations (trace s')) mod 18"
proof (cases "get_remaining_requests E s")
  case (Pair q s1)
  note f = get_remaining_requests_rotations[OF Pair]
  show ?thesis
  proof (cases q)
    case (Inl e)
    with Pair assms f show ?thesis by (auto simp: check_and_switch_key_def)
  next
    case (Inr v)
    have m: "Suc ((c + rotations (trace s)) mod 18) mod 18 = Suc (c + rotations (trace s)) mod 18"
      by (rule mod_Suc_eq)
    show ?thesis
    proof (cases "v < 10")
      case False
      with Pair Inr assms f show ?thesis
        by (auto simp: check_and_switch_key_def Let_def emit_def rotations_append)
    next
      case True
      show ?thesis
      proof (cases "api_keys (github_api_handler s) = []")
        case True
        with \<open>v < 10\<close> Pair Inr assms f show ?thesis
          by (auto simp: check_and_switch_key_def Let_def emit_def rotations_append)
      next
        case False
        show ?thesis
        proof (cases "failed_attempts (github_api_handler s) = 17")
          case True
          with assms(2) m have "Suc (c + rotations (trace s)) mod 18 = 0" by simp
          with True False \<open>v < 10\<close> Pair Inr assms(3) f show ?thesis
            by (auto simp: check_and_switch_key_def Let_def emit_def rotations_append)
        next
          case False
          with assms(1) have lt: "Suc (failed_attempts (github_api_handler s)) < 18" by simp
          then have "Suc (failed_attempts (github_api_handler s)) mod 18 = Suc (failed_attempts (github_api_handler s))"
            by simp
          with assms(2) m have "Suc (c + rotations (trace s)) mod 18 = Suc (failed_attempts (github_api_handler s))"
            by simp
          with lt \<open>api_keys (github_api_handler s) \<noteq> []\<close> \<open>v < 10\<close> Pair Inr assms(3) f show ?thesis
            by (auto simp: check_and_switch_key_def Let_def emit_def rotations_append)
        qed
      qed
    qed
  qed
qed

lemma check_and_switch_key_times_counts:
  assumes "failed_attempts (github_api_handler s) < 18"
    and "failed_attempts (github_api_handler s) = (c + rotations (trace s)) mod 18"
    and "check_and_switch_key_times E k s = (r, s')"
  shows "failed_attempts (github_api_handler s') < 18
       \<and> failed_attempts (github_api_handler s') = (c + rotations (trace s')) mod 18"
  using assms
proof (induction k arbitrary: s)
  case 0
  then show ?case by simp
next
  case (Suc k)
  obtain q s1 where c: "check_and_switch_key E s = (q, s1)" by (cases "check_and_switch_key E s")
  note i = check_and_switch_key_counts[OF Suc.prems(1,2) c]
  show ?case
  proof (cases q)
    case (Inl e)
    with c Suc.prems(3) i show ?thesis by simp
  next
    case (Inr x)
    with c Suc.prems(3) have "check_and_switch_key_times E k s1 = (r, s')" by simp
    with Suc.IH i show ?thesis by blast
  qed
qed


text \<open>
  C1: with a pool of at least one credential, a call of \<^verbatim>\<open>check_and_switch_key\<close> whose quota
  probe reports a value below 10 returns normally, advances the key index by one modulo the
  pool size and increments \<open>failed_attempts\<close>; when the incremented counter reaches 18 the
  call sleeps 3900 seconds once and resets the counter to 0, otherwise it does not sleep.
  With a pool of two credentials and a probe that always reports less than 10, after \<open>k\<close>
  calls the index is \<open>k mod 2\<close>, the counter is \<open>k mod 18\<close> and there were \<open>k div 18\<close>
  cooldowns: none during the first 17 rotations and exactly one after 18.
\<close>

theorem check_and_switch_key_rotation:
  "(\<forall>E s v s1.
      1 \<le> length (api_keys (github_api_handler s))
      \<and> get_remaining_requests E s = (Inr v, s1) \<and> v < 10 \<longrightarrow>
      (\<exists>s'. check_and_switch_key E s = (Inr (), s')
         \<and> current_key_index (github_api_handler s')
             = (current_key_index (github_api_handler s) + 1) mod length (api_keys (github_api_handler s))
         \<and> (if failed_attempts (github_api_handler s) + 1 \<ge> 18
             then failed_attempts (github_api_handler s') = 0
                  \<and> cooldowns (trace s') = cooldowns (trace s) @ [3900]
             else failed_attempts (github_api_handler s') = failed_attempts (github_api_handler s) + 1
                  \<and> cooldowns (trace s') = cooldowns (trace s))))
   \<and> (\<forall>E k1 k2 df k.
        (\<forall>tr url hdr. \<exists>r. http_get E tr Resilient url hdr = Inr r \<and>
             (status_code r = 200 \<longrightarrow> (\<exists>v<10. rate_remaining r = Some v))) \<longrightarrow>
        (\<exists>s'. check_and_switch_key_times E k (start [k1, k2] df) = (Inr (), s')
           \<and> current_key_index (github_api_handler s') = k mod 2
           \<and> failed_attempts (github_api_handler s') = k mod 18
           \<and> cooldowns (trace s') = replicate (k div 18) 3900
           \<and> (k < 18 \<longrightarrow> cooldowns (trace s') = [])
           \<and> (k = 18 \<longrightarrow> cooldowns (trace s') = [3900] \<and> failed_attempts (github_api_handler s') = 0)))"
proof (intro conjI allI impI)
  fix E s v s1
  assume "1 \<le> length (api_keys (github_api_handler s))
      \<and> get_remaining_requests E s = (Inr v, s1) \<and> v < 10"
  then have "get_remaining_requests E s = (Inr v, s1)" "v < 10" by simp_all
  from check_and_switch_key_low[OF this]
  show "\<exists>s'. check_and_switch_key E s = (Inr (), s')
         \<and> current_key_index (github_api_handler s')
             = (current_key_index (github_api_handler s) + 1) mod length (api_keys (github_api_handler s))
         \<and> (if failed_attempts (github_api_handler s) + 1 \<ge> 18
             then failed_attempts (github_api_handler s') = 0
                  \<and> cooldowns (trace s') = cooldowns (trace s) @ [3900]
             else failed_attempts (github_api_handler s') = failed_attempts (github_api_handler s) + 1
                  \<and> cooldowns (trace s') = cooldowns (trace s))"
    by blast
next
  fix E :: env and k1 k2 :: str and df :: "row list" and k :: nat
  assume low: "\<forall>tr url hdr. \<exists>r. http_get E tr Resilient url hdr = Inr r \<and>
             (status_code r = 200 \<longrightarrow> (\<exists>v<10. rate_remaining r = Some v))"
  have "\<exists>s'. check_and_switch_key_times E k (start [k1, k2] df) = (Inr (), s')
           \<and> api_keys (github_api_handler s') = api_keys (github_api_handler (start [k1, k2] df))
           \<and> current_key_index (github_api_handler s')
               = (current_key_index (github_api_handler (start [k1, k2] df)) + k)
                   mod length (api_keys (github_api_handler (start [k1, k2] df)))
           \<and> failed_attempts (github_api_handler s')
               = (failed_attempts (github_api_handler (start [k1, k2] df)) + k) mod 18
           \<and> cooldowns (trace s')
               = cooldowns (trace (start [k1, k2] df))
                 @ replicate ((failed_attempts (github_api_handler (start [k1, k2] df)) + k) div 18) 3900"
    by (rule check_and_switch_key_times_low[OF low]) (simp_all add: start_def init_handler_def)
  then obtain s' where r: "check_and_switch_key_times E k (start [k1, k2] df) = (Inr (), s')"
    and i: "current_key_index (github_api_handler s') = k mod 2"
    and f: "failed_attempts (github_api_handler s') = k mod 18"
    and c: "cooldowns (trace s') = replicate (k div 18) 3900"
    by (auto simp: start_def init_handler_def numeral_2_eq_2)
  have "k < 18 \<longrightarrow> cooldowns (trace s') = []" using c by simp
  moreover have "k = 18 \<longrightarrow> cooldowns (trace s') = [3900] \<and> failed_attempts (github_api_handler s') = 0"
    using c f by simp
  ultimately show "\<exists>s'. check_and_switch_key_times E k (start [k1, k2] df) = (Inr (), s')
           \<and> current_key_index (github_api_handler s') = k mod 2
           \<and> failed_attempts (github_api_handler s') = k mod 18
           \<and> cooldowns (trace s') = replicate (k div 18) 3900
           \<and> (k < 18 \<longrightarrow> cooldowns (trace s') = [])
           \<and> (k = 18 \<longrightarrow> cooldowns (trace s') = [3900] \<and> failed_attempts (github_api_handler s') = 0)"
    using r i f c by blast
qed

lemma exhausted_env_low:
  "\<forall>tr url hdr. \<exists>r. http_get exhausted_env tr Resilient url hdr = Inr r \<and>
             (status_code r = 200 \<longrightarrow> (\<exists>v<10. rate_remaining r = Some v))"
  by (simp add: exhausted_env_def fixture_def quota_def)

lemma exhausted_env_probe:
  "get_remaining_requests exhausted_env (start [u ''k1'', u ''k2''] [])
     = (Inr 3, emit (HttpGet Resilient (u ''https://api.github.com/rate_limit'') (u ''token '' @ u ''k1''))
                  (start [u ''k1'', u ''k2''] []))"
  by (simp add: exhausted_env_def fixture_def quota_def get_remaining_requests_def get_headers_def
      requests_get_def start_def init_handler_def)

theorem check_and_switch_key_rotation_witness:
  "(1 \<le> length (api_keys (github_api_handler (start [u ''k1'', u ''k2''] [])))
    \<and> fst (get_remaining_requests exhausted_env (start [u ''k1'', u ''k2''] [])) = Inr 3 \<and> (3::int) < 10
    \<and> current_key_index (github_api_handler (snd (check_and_switch_key exhausted_env (start [u ''k1'', u ''k2''] [])))) = 1
    \<and> failed_attempts (github_api_handler (snd (check_and_switch_key exhausted_env (start [u ''k1'', u ''k2''] [])))) = 1)
   \<and> (\<forall>tr url hdr. \<exists>r. http_get exhausted_env tr Resilient url hdr = Inr r \<and>
             (status_code r = 200 \<longrightarrow> (\<exists>v<10. rate_remaining r = Some v)))
   \<and> cooldowns (trace (snd (check_and_switch_key_times exhausted_env 18 (start [u ''k1'', u ''k2''] [])))) = [3900]
   \<and> current_key_index (github_api_handler (snd (check_and_switch_key_times exhausted_env 3 (start [u ''k1'', u ''k2''] [])))) = 1"
proof -
  let ?s = "start [u ''k1'', u ''k2''] []"
  note T = check_and_switch_key_rotation
  from T have A: "1 \<le> length (api_keys (github_api_handler ?s))
      \<and> get_remaining_requests exhausted_env ?s = (Inr 3, snd (get_remaining_requests exhausted_env ?s)) \<and> (3::int) < 10 \<longrightarrow>
      (\<exists>s'. check_and_switch_key exhausted_env ?s = (Inr (), s')
         \<and> current_key_index (github_api_handler s')
             = (current_key_index (github_api_handler ?s) + 1) mod length (api_keys (github_api_handler ?s))
         \<and> (if failed_attempts (github_api_handler ?s) + 1 \<ge> 18
             then failed_attempts (github_api_handler s') = 0
                  \<and> cooldowns (trace s') = cooldowns (trace ?s) @ [3900]
             else failed_attempts (github_api_handler s') = failed_attempts (github_api_handler ?s) + 1
                  \<and> cooldowns (trace s') = cooldowns (trace ?s)))"
    by blast
  have h: "1 \<le> length (api_keys (github_api_handler ?s))" by (simp add: start_def init_handler_def)
  have p: "get_remaining_requests exhausted_env ?s = (Inr 3, snd (get_remaining_requests exhausted_env ?s))"
    by (simp add: exhausted_env_probe)
  from A h p have a: "current_key_index (github_api_handler (snd (check_and_switch_key exhausted_env ?s))) = 1
     \<and> failed_attempts (github_api_handler (snd (check_and_switch_key exhausted_env ?s))) = 1"
    by (auto simp: start_def init_handler_def)
  from T exhausted_env_low have B: "\<And>k. \<exists>s'. check_and_switch_key_times exhausted_env k ?s = (Inr (), s')
           \<and> current_key_index (github_api_handler s') = k mod 2
           \<and> failed_attempts (github_api_handler s') = k mod 18
           \<and> cooldowns (trace s') = replicate (k div 18) 3900
           \<and> (k < 18 \<longrightarrow> cooldowns (trace s') = [])
           \<and> (k = 18 \<longrightarrow> cooldowns (trace s') = [3900] \<and> failed_attempts (github_api_handler s') = 0)"
    by blast
  from B[of 18] have b: "cooldowns (trace (snd (check_and_switch_key_times exhausted_env 18 ?s))) = [3900]"
    by auto
  from B[of 3] have c: "current_key_index (github_api_handler (snd (check_and_switch_key_times exhausted_env 3 ?s))) = 1"
    by auto
  show ?thesis using a b c h p exhausted_env_low by (simp add: exhausted_env_probe)
qed

text \<open>
  C4, as stated, fails: a probe that finds sufficient quota does not reset
  \<open>failed_attempts\<close>. With probes 5, 50, 5 the counter is 1 after the recovery and 2 after
  the third call.
\<close>

theorem failed_attempts_not_reset_on_recovery:
  "infos (trace (snd (check_and_switch_key_times recovering_env 3 (start [u ''k1'', u ''k2''] []))))
     = [RemainingRequests 5, SwitchedKey 2, RemainingRequests 50, RemainingRequests 5, SwitchedKey 1]
   \<and> failed_attempts (github_api_handler (snd (check_and_switch_key_times recovering_env 2 (start [u ''k1'', u ''k2''] [])))) = 1
   \<and> failed_attempts (github_api_handler (snd (check_and_switch_key_times recovering_env 3 (start [u ''k1'', u ''k2''] [])))) = 2"
  by (simp add: eval_nat_numeral recovering_env_def fixture_def quota_def start_def init_handler_def
      check_and_switch_key_def get_remaining_requests_def get_headers_def requests_get_def emit_def Let_def)

text \<open>
  C4, amended: a call whose probe reports 10 or more leaves the handler, and so
  \<open>failed_attempts\<close>, unchanged; after any number of calls on a new handler
  \<open>failed_attempts\<close> is the number of rotations performed so far modulo 18, whether or not a
  probe in between found sufficient quota.
\<close>

theorem failed_attempts_counts_rotations:
  "(\<forall>E s v s1. get_remaining_requests E s = (Inr v, s1) \<and> v \<ge> 10 \<longrightarrow>
      (\<exists>s'. check_and_switch_key E s = (Inr (), s')
         \<and> github_api_handler s' = github_api_handler s
         \<and> rotations (trace s') = rotations (trace s)))
   \<and> (\<forall>E k keys df.
        failed_attempts (github_api_handler (snd (check_and_switch_key_times E k (start keys df))))
          = rotations (trace (snd (check_and_switch_key_times E k (start keys df)))) mod 18)"
proof (intro conjI allI impI)
  fix E s v s1
  assume a: "get_remaining_requests E s = (Inr v, s1) \<and> (10::int) \<le> v"
  then have "check_and_switch_key E s = (Inr (), emit (Info (RemainingRequests v)) s1)"
    by (simp add: check_and_switch_key_high)
  moreover from a get_remaining_requests_rotations
  have "github_api_handler s1 = github_api_handler s \<and> rotations (trace s1) = rotations (trace s)"
    by blast
  ultimately show "\<exists>s'. check_and_switch_key E s = (Inr (), s')
         \<and> github_api_handler s' = github_api_handler s
         \<and> rotations (trace s') = rotations (trace s)"
    by (simp add: emit_def rotations_append)
next
  fix E k keys df
  obtain r s' where c: "check_and_switch_key_times E k (start keys df) = (r, s')"
    by (cases "check_and_switch_key_times E k (start keys df)")
  have "failed_attempts (github_api_handler s') = (0 + rotations (trace s')) mod 18"
    using check_and_switch_key_times_counts[OF _ _ c, of 0]
    by (simp add: start_def init_handler_def)
  with c show "failed_attempts (github_api_handler (snd (check_and_switch_key_times E k (start keys df))))
          = rotations (trace (snd (check_and_switch_key_times E k (start keys df)))) mod 18"
    by simp
qed


theorem failed_attempts_counts_rotations_witness:
  "fst (get_remaining_requests healthy_env (start [u ''k1'', u ''k2''] [])) = Inr 50 \<and> (50::int) \<ge> 10
   \<and> github_api_handler (snd (check_and_switch_key healthy_env (start [u ''k1'', u ''k2''] [])))
       = github_api_handler (start [u ''k1'', u ''k2''] [])
   \<and> failed_attempts (github_api_handler (snd (check_and_switch_key_times recovering_env 3 (start [u ''k1'', u ''k2''] []))))
       = rotations (trace (snd (check_and_switch_key_times recovering_env 3 (start [u ''k1'', u ''k2''] [])))) mod 18"
proof -
  let ?s = "start [u ''k1'', u ''k2''] []"
  note T = failed_attempts_counts_rotations
  have p: "get_remaining_requests healthy_env ?s = (Inr 50, snd (get_remaining_requests healthy_env ?s))"
    by (simp add: healthy_env_def fixture_def quota_def get_remaining_requests_def get_headers_def
        requests_get_def start_def init_handler_def)
  from T have "get_remaining_requests healthy_env ?s = (Inr 50, snd (get_remaining_requests healthy_env ?s))
      \<and> (50::int) \<ge> 10 \<longrightarrow>
      (\<exists>s'. check_and_switch_key healthy_env ?s = (Inr (), s')
         \<and> github_api_handler s' = github_api_handler ?s
         \<and> rotations (trace s') = rotations (trace ?s))"
    by blast
  with p have a: "github_api_handler (snd (check_and_switch_key healthy_env ?s)) = github_api_handler ?s"
    by auto
  from T have b: "failed_attempts (github_api_handler (snd (check_and_switch_key_times recovering_env 3 ?s)))
       = rotations (trace (snd (check_and_switch_key_times recovering_env 3 ?s))) mod 18"
    by blast
  from p have "fst (get_remaining_requests healthy_env ?s) = Inr 50" by (metis fst_conv)
  with a b show ?thesis by simp
qed


section \<open>Properties of the profile fetcher\<close>

lemma check_and_switch_key_headers:
  assumes "check_and_switch_key E s = (Inr x, s1)"
  shows "current_key_index (github_api_handler s1) < length (api_keys (github_api_handler s1))"
proof (cases "get_remaining_requests E s")
  case (Pair q s0)
  show ?thesis
  proof (cases q)
    case (Inl e)
    with Pair assms show ?thesis by (simp add: check_and_switch_key_def)
  next
    case (Inr v)
    from Pair Inr have p: "get_remaining_requests E s = (Inr v, s0)" by simp
    note f = get_remaining_requests_frame[OF p] get_remaining_requests_pool[OF p]
    let ?n = "length (api_keys (github_api_handler s))"
    from f have pos: "0 < ?n" by (cases "api_keys (github_api_handler s)") auto
    then have m: "Suc (current_key_index (github_api_handler s)) mod ?n < ?n" by (rule mod_less_divisor)
    show ?thesis
    proof (cases "v < 10")
      case True
      with p f pos m assms show ?thesis
        by (auto simp: check_and_switch_key_def Let_def emit_def split: if_splits)
    next
      case False
      with p f assms show ?thesis
        by (auto simp: check_and_switch_key_def Let_def emit_def)
    qed
  qed
qed

lemma get_email_from_readme_eq:
  "get_email_from_readme E W user headers s =
     (case http_get E (trace s) Bare
             (u ''https://raw.githubusercontent.com/'' @ user @ u ''/'' @ user @ u ''/main/README.md'') headers of
        Inl e \<Rightarrow> Inl e
      | Inr response \<Rightarrow>
          Inr (if status_code response = 200 then extract_email W (body_text response) else None),
      emit (HttpGet Bare (u ''https://raw.githubusercontent.com/'' @ user @ u ''/'' @ user @ u ''/main/README.md'') headers) s)"
  by (simp add: get_email_from_readme_def requests_get_def split: sum.splits)

text \<open>
  C5: once the quota check has returned and the profile request has returned a response,
  \<^verbatim>\<open>get_user_info_from_github_api\<close> returns \<^verbatim>\<open>None\<close> without raising when the status is
  not 200; the email field of the payload when it is a non-empty string; and otherwise
  (field absent, null or empty) the result of \<^verbatim>\<open>extract_email\<close> on the README when the README
  request answers 200, and \<^verbatim>\<open>None\<close> when it answers another status.
\<close>

theorem get_user_info_from_github_api_result:
  "\<forall>E W ident s s1 response.
     check_and_switch_key E s = (Inr (), s1)
     \<and> http_get E (trace s1) Resilient
          (u ''https://api.github.com/users/''
             @ (if startswith ident (u ''https://github.com/'') then last (split 47 ident) else ident))
          (u ''token '' @ api_keys (github_api_handler s1) ! current_key_index (github_api_handler s1))
         = Inr response \<longrightarrow>
     (status_code response \<noteq> 200 \<longrightarrow>
        fst (get_user_info_from_github_api E W (Some ident) s) = Inr None)
     \<and> (\<forall>e. status_code response = 200 \<and> email_field response = Some (JStr e) \<and> e \<noteq> [] \<longrightarrow>
          fst (get_user_info_from_github_api E W (Some ident) s) = Inr (Some e))
     \<and> (status_code response = 200
          \<and> email_field response \<in> {Some JAbsent, Some JNull, Some (JStr [])} \<longrightarrow>
          (\<forall>readme.
             http_get E
               (trace s1 @ [HttpGet Resilient
                    (u ''https://api.github.com/users/''
                       @ (if startswith ident (u ''https://github.com/'') then last (split 47 ident) else ident))
                    (u ''token '' @ api_keys (github_api_handler s1) ! current_key_index (github_api_handler s1))])
               Bare
               (u ''https://raw.githubusercontent.com/''
                  @ (if startswith ident (u ''https://github.com/'') then last (split 47 ident) else ident)
                  @ u ''/''
                  @ (if startswith ident (u ''https://github.com/'') then last (split 47 ident) else ident)
                  @ u ''/main/README.md'')
               (u ''token '' @ api_keys (github_api_handler s1) ! current_key_index (github_api_handler s1))
              = Inr readme \<longrightarrow>
             fst (get_user_info_from_github_api E W (Some ident) s)
               = Inr (if status_code readme = 200 then extract_email W (body_text readme) else None)))"
proof (intro allI impI, elim conjE)
  fix E :: env and W :: "nat \<Rightarrow> bool" and ident :: str and s s1 :: state and response :: response
  let ?user = "if startswith ident (u ''https://github.com/'') then last (split 47 ident) else ident"
  let ?hd = "u ''token '' @ api_keys (github_api_handler s1) ! current_key_index (github_api_handler s1)"
  assume c: "check_and_switch_key E s = (Inr (), s1)"
    and r: "http_get E (trace s1) Resilient (u ''https://api.github.com/users/'' @ ?user) ?hd = Inr response"
  from check_and_switch_key_headers[OF c] have h: "get_headers (github_api_handler s1) = Inr ?hd"
    by (simp add: get_headers_def)
  have a: "status_code response \<noteq> 200 \<longrightarrow>
        fst (get_user_info_from_github_api E W (Some ident) s) = Inr None"
    using c h r by (simp add: get_user_info_from_github_api_def requests_get_def Let_def)
  have b: "\<forall>e. status_code response = 200 \<and> email_field response = Some (JStr e) \<and> e \<noteq> [] \<longrightarrow>
          fst (get_user_info_from_github_api E W (Some ident) s) = Inr (Some e)"
    using c h r by (simp add: get_user_info_from_github_api_def requests_get_def Let_def)
  have d: "status_code response = 200
          \<and> email_field response \<in> {Some JAbsent, Some JNull, Some (JStr [])} \<longrightarrow>
          (\<forall>readme.
             http_get E (trace s1 @ [HttpGet Resilient (u ''https://api.github.com/users/'' @ ?user) ?hd])
               Bare (u ''https://raw.githubusercontent.com/'' @ ?user @ u ''/'' @ ?user @ u ''/main/README.md'') ?hd
              = Inr readme \<longrightarrow>
             fst (get_user_info_from_github_api E W (Some ident) s)
               = Inr (if status_code readme = 200 then extract_email W (body_text readme) else None))"
    using c h r
    by (auto simp: get_user_info_from_github_api_def requests_get_def Let_def emit_def
        get_email_from_readme_eq)
  from a b d show "(status_code response \<noteq> 200 \<longrightarrow>
        fst (get_user_info_from_github_api E W (Some ident) s) = Inr None)
     \<and> (\<forall>e. status_code response = 200 \<and> email_field response = Some (JStr e) \<and> e \<noteq> [] \<longrightarrow>
          fst (get_user_info_from_github_api E W (Some ident) s) = Inr (Some e))
     \<and> (status_code response = 200
          \<and> email_field response \<in> {Some JAbsent, Some JNull, Some (JStr [])} \<longrightarrow>
          (\<forall>readme.
             http_get E (trace s1 @ [HttpGet Resilient (u ''https://api.github.com/users/'' @ ?user) ?hd])
               Bare (u ''https://raw.githubusercontent.com/'' @ ?user @ u ''/'' @ ?user @ u ''/main/README.md'') ?hd
              = Inr readme \<longrightarrow>
             fst (get_user_info_from_github_api E W (Some ident) s)
               = Inr (if status_code readme = 200 then extract_email W (body_text readme) else None)))"
    by blast
qed

lemmas run_defs = fixture_def quota_def start_def init_handler_def
  check_and_switch_key_def get_remaining_requests_def get_headers_def requests_get_def emit_def
  get_user_info_from_github_api_def get_email_from_readme_def startswith_def Let_def

lemmas re_defs = extract_email_def re_findall_def strip_def pattern_def class_defs prev_after_def

lemma alice_check:
  "fst (check_and_switch_key alice_env (start [u ''k1''] [])) = Inr ()"
  by (simp add: alice_env_def run_defs)

lemma alice_state:
  "github_api_handler (snd (check_and_switch_key alice_env (start [u ''k1''] []))) = init_handler [u ''k1'']
   \<and> http_gets (trace (snd (check_and_switch_key alice_env (start [u ''k1''] []))))
       = [(Resilient, u ''https://api.github.com/rate_limit'')]"
  by (simp add: alice_env_def run_defs)

text \<open>
  C3 does not hold of the code: for a profile whose email field is empty the three requests
  are the quota probe and the profile request, both through the retrying session, and the
  README request through a plain \<^verbatim>\<open>requests.get\<close>.
\<close>

theorem readme_fetch_is_unretried:
  "http_gets (trace (snd (get_user_info_from_github_api alice_env (\<lambda>x. False)
       (Some (u ''https://github.com/alice'')) (start [u ''k1''] []))))
     = [(Resilient, u ''https://api.github.com/rate_limit''),
        (Resilient, u ''https://api.github.com/users/alice''),
        (Bare, u ''https://raw.githubusercontent.com/alice/alice/main/README.md'')]"
  by (simp add: alice_env_def run_defs u_Cons u_Nil)

theorem get_user_info_from_github_api_result_witness:
  "fst (get_user_info_from_github_api alice_env (\<lambda>x. False)
       (Some (u ''https://github.com/alice'')) (start [u ''k1''] []))
     = Inr (Some (u ''alice@example.com''))"
proof -
  let ?s = "start [u ''k1''] []"
  let ?s1 = "snd (check_and_switch_key alice_env ?s)"
  let ?id = "u ''https://github.com/alice''"
  let ?user = "if startswith ?id (u ''https://github.com/'') then last (split 47 ?id) else ?id"
  let ?hd = "u ''token '' @ api_keys (github_api_handler ?s1) ! current_key_index (github_api_handler ?s1)"
  let ?profile = "\<lparr>status_code = 200, body_text = [], rate_remaining = None, email_field = Some (JStr [])\<rparr>"
  let ?readme = "\<lparr>status_code = 200, body_text = u ''write to <alice@example.com>'',
                      rate_remaining = None, email_field = None\<rparr>"
  have c: "check_and_switch_key alice_env ?s = (Inr (), ?s1)"
    using alice_check by (metis prod.collapse)
  have g: "\<And>tr c url hdr. http_get alice_env tr c url hdr =
       (if length (http_gets tr) = 0 then quota 50
        else if length (http_gets tr) = 1 then Inr ?profile else Inr ?readme)"
    by (simp add: alice_env_def fixture_def)
  have http_gets_snoc: "\<And>tr c url hdr. http_gets (tr @ [HttpGet c url hdr]) = http_gets tr @ [(c, url)]"
  proof -
    fix tr c url hdr show "http_gets (tr @ [HttpGet c url hdr]) = http_gets tr @ [(c, url)]"
      by (induction tr rule: http_gets.induct) auto
  qed
  have p: "http_get alice_env (trace ?s1) Resilient (u ''https://api.github.com/users/'' @ ?user) ?hd = Inr ?profile"
    using alice_state by (simp add: g)
  have r: "http_get alice_env
               (trace ?s1 @ [HttpGet Resilient (u ''https://api.github.com/users/'' @ ?user) ?hd])
               Bare (u ''https://raw.githubusercontent.com/'' @ ?user @ u ''/'' @ ?user @ u ''/main/README.md'') ?hd
             = Inr ?readme"
    using alice_state by (simp add: g http_gets_snoc)
  have e: "extract_email (\<lambda>x. False) (u ''write to <alice@example.com>'') = Some (u ''alice@example.com'')"
    by (simp add: re_defs u_Cons u_Nil Let_def)
  from get_user_info_from_github_api_result c p
  have "status_code ?profile = 200
          \<and> email_field ?profile \<in> {Some JAbsent, Some JNull, Some (JStr [])} \<longrightarrow>
          (\<forall>readme.
             http_get alice_env
               (trace ?s1 @ [HttpGet Resilient (u ''https://api.github.com/users/'' @ ?user) ?hd])
               Bare (u ''https://raw.githubusercontent.com/'' @ ?user @ u ''/'' @ ?user @ u ''/main/README.md'') ?hd
              = Inr readme \<longrightarrow>
             fst (get_user_info_from_github_api alice_env (\<lambda>x. False) (Some ?id) ?s)
               = Inr (if status_code readme = 200 then extract_email (\<lambda>x. False) (body_text readme) else None))"
    by blast
  then have "fst (get_user_info_from_github_api alice_env (\<lambda>x. False) (Some ?id) ?s)
               = Inr (if status_code ?readme = 200 then extract_email (\<lambda>x. False) (body_text ?readme) else None)"
    using r by simp
  with e show ?thesis by simp
qed


section \<open>Properties of the driver loops\<close>

lemma http_gets_append: "http_gets (xs @ ys) = http_gets xs @ http_gets ys"
  by (induction xs rule: http_gets.induct) auto

lemma emit_simps:
  "trace (emit e s) = trace s @ [e]"
  "input_df (emit e s) = input_df s"
  "github_api_handler (emit e s) = github_api_handler s"
  by (simp_all add: emit_def)

lemma save_csv_frame:
  "input_df (snd (save_csv E s)) = input_df s"
  "github_api_handler (snd (save_csv E s)) = github_api_handler s"
  "trace (snd (save_csv E s)) = trace s @ [ToCsv (input_df s)]"
  by (simp_all add: save_csv_def emit_def split: option.splits)

lemma loop_GHES_all_done:
  assumes "\<forall>p \<in> set rows. status (snd p) = Some (u ''Done'')"
  shows "http_gets (trace (snd (loop_GHES E W t0 rows s))) = http_gets (trace s)
       \<and> input_df (snd (loop_GHES E W t0 rows s)) = input_df s
       \<and> github_api_handler (snd (loop_GHES E W t0 rows s)) = github_api_handler s"
  using assms
proof (induction rows arbitrary: s)
  case Nil
  then show ?case by simp
next
  case (Cons p rows)
  obtain index r where p: "p = (index, r)" by (cases p)
  from Cons.prems p have d: "status r = Some (u ''Done'')" by simp
  from Cons.prems have "\<forall>p \<in> set rows. status (snd p) = Some (u ''Done'')" by simp
  from Cons.IH[OF this, of "emit Now s"] p d show ?case
    by (simp add: Let_def emit_simps http_gets_append)
qed

lemma loop_cloud02_all_done:
  assumes "\<forall>p \<in> set rows. status (snd p) = Some (u ''Done'')"
  shows "http_gets (trace (snd (loop_cloud02 E W t0 rows s))) = http_gets (trace s)
       \<and> input_df (snd (loop_cloud02 E W t0 rows s)) = input_df s
       \<and> github_api_handler (snd (loop_cloud02 E W t0 rows s)) = github_api_handler s"
  using assms
proof (induction rows arbitrary: s)
  case Nil
  then show ?case by simp
next
  case (Cons p rows)
  obtain index r where p: "p = (index, r)" by (cases p)
  from Cons.prems p have d: "status r = Some (u ''Done'')" by simp
  from Cons.prems have "\<forall>p \<in> set rows. status (snd p) = Some (u ''Done'')" by simp
  note ih = Cons.IH[OF this, of "emit Now s"]
  show ?case
  proof (cases "now E (trace s) - t0 > max_runtime")
    case True
    obtain q s1 where q: "save_csv E (emit (Info MaxRuntimeSaving) (emit Now s)) = (q, s1)"
      by (cases "save_csv E (emit (Info MaxRuntimeSaving) (emit Now s))")
    from save_csv_frame[of E "emit (Info MaxRuntimeSaving) (emit Now s)"] q
    have "input_df s1 = input_df s" "github_api_handler s1 = github_api_handler s"
      "http_gets (trace s1) = http_gets (trace s)"
      by (simp_all add: emit_simps http_gets_append)
    with True p q show ?thesis by (cases q) (simp_all add: Let_def)
  next
    case False
    with ih p d show ?thesis by (simp add: Let_def emit_simps http_gets_append)
  qed
qed

lemma loop_GHES_all_done_trace:
  assumes "\<forall>p \<in> set rows. status (snd p) = Some (u ''Done'')"
  shows "\<exists>es. trace (snd (loop_GHES E W t0 rows s)) = trace s @ es
            \<and> set es \<subseteq> {Now, Info MaxRuntimeExiting}"
  using assms
proof (induction rows arbitrary: s)
  case Nil
  then show ?case by simp
next
  case (Cons p rows)
  obtain index r where p: "p = (index, r)" by (cases p)
  from Cons.prems p have d: "status r = Some (u ''Done'')" by simp
  from Cons.prems have "\<forall>p \<in> set rows. status (snd p) = Some (u ''Done'')" by simp
  from Cons.IH[OF this, of "emit Now s"] obtain es where
    es: "trace (snd (loop_GHES E W t0 rows (emit Now s))) = trace (emit Now s) @ es"
        "set es \<subseteq> {Now, Info MaxRuntimeExiting}" by blast
  show ?case
  proof (cases "now E (trace s) - t0 > max_runtime")
    case True
    with p have "trace (snd (loop_GHES E W t0 (p # rows) s)) = trace s @ [Now, Info MaxRuntimeExiting]"
      by (simp add: Let_def emit_simps)
    then show ?thesis by (intro exI[of _ "[Now, Info MaxRuntimeExiting]"]) simp
  next
    case False
    with p d es(1) have "trace (snd (loop_GHES E W t0 (p # rows) s)) = trace s @ (Now # es)"
      by (simp add: Let_def emit_simps)
    with es(2) show ?thesis by (intro exI[of _ "Now # es"]) simp
  qed
qed

lemma loop_cloud02_all_done_trace:
  assumes "\<forall>p \<in> set rows. status (snd p) = Some (u ''Done'')"
  shows "\<exists>es. trace (snd (loop_cloud02 E W t0 rows s)) = trace s @ es
            \<and> set es \<subseteq> {Now, Info MaxRuntimeSaving, ToCsv (input_df s)}"
  using assms
proof (induction rows arbitrary: s)
  case Nil
  then show ?case by simp
next
  case (Cons p rows)
  obtain index r where p: "p = (index, r)" by (cases p)
  from Cons.prems p have d: "status r = Some (u ''Done'')" by simp
  from Cons.prems have "\<forall>p \<in> set rows. status (snd p) = Some (u ''Done'')" by simp
  from Cons.IH[OF this, of "emit Now s"] obtain es where
    es: "trace (snd (loop_cloud02 E W t0 rows (emit Now s))) = trace (emit Now s) @ es"
        "set es \<subseteq> {Now, Info MaxRuntimeSaving, ToCsv (input_df s)}"
    by (auto simp: emit_simps)
  show ?case
  proof (cases "now E (trace s) - t0 > max_runtime")
    case True
    obtain q s1 where q: "save_csv E (emit (Info MaxRuntimeSaving) (emit Now s)) = (q, s1)"
      by (cases "save_csv E (emit (Info MaxRuntimeSaving) (emit Now s))")
    from save_csv_frame(3)[of E "emit (Info MaxRuntimeSaving) (emit Now s)"] q
    have "trace s1 = trace s @ [Now, Info MaxRuntimeSaving, ToCsv (input_df s)]"
      by (simp add: emit_simps)
    with True p q have "trace (snd (loop_cloud02 E W t0 (p # rows) s))
        = trace s @ [Now, Info MaxRuntimeSaving, ToCsv (input_df s)]"
      by (cases q) (simp_all add: Let_def)
    then show ?thesis
      by (intro exI[of _ "[Now, Info MaxRuntimeSaving, ToCsv (input_df s)]"]) simp
  next
    case False
    with p d es(1) have "trace (snd (loop_cloud02 E W t0 (p # rows) s)) = trace s @ (Now # es)"
      by (simp add: Let_def emit_simps)
    with es(2) show ?thesis by (intro exI[of _ "Now # es"]) simp
  qed
qed

lemma network_calls_quiet:
  assumes "tr' = tr @ es" and "\<forall>e \<in> set es. \<not> is_network e"
  shows "network_calls tr' = network_calls tr"
proof -
  from assms(2) have "filter is_network es = []" by (simp add: filter_empty_conv)
  with assms(1) show ?thesis by (simp add: network_calls_def)
qed

text \<open>
  C8: if every row of the frame has Status \<^verbatim>\<open>Done\<close>, the loop of either file performs no
  network call, neither an HTTP request nor a call of the Sheets client, and leaves every row
  and the handler as they were. The only events of such a run are the clock reads and, if
  the runtime check fires, its log line (and in cloud02.py the save of the unchanged frame
  to the local file).
\<close>

theorem all_done_is_noop:
  "\<forall>E W t0 s. (\<forall>r \<in> set (input_df s). status r = Some (u ''Done'')) \<longrightarrow>
     http_gets (trace (snd (for_rows_GHES E W t0 s))) = http_gets (trace s)
     \<and> input_df (snd (for_rows_GHES E W t0 s)) = input_df s
     \<and> http_gets (trace (snd (for_rows_cloud02 E W t0 s))) = http_gets (trace s)
     \<and> input_df (snd (for_rows_cloud02 E W t0 s)) = input_df s
     \<and> network_calls (trace (snd (for_rows_GHES E W t0 s))) = network_calls (trace s)
     \<and> network_calls (trace (snd (for_rows_cloud02 E W t0 s))) = network_calls (trace s)
     \<and> (\<exists>es. trace (snd (for_rows_GHES E W t0 s)) = trace s @ es
            \<and> set es \<subseteq> {Now, Info MaxRuntimeExiting})
     \<and> (\<exists>es. trace (snd (for_rows_cloud02 E W t0 s)) = trace s @ es
            \<and> set es \<subseteq> {Now, Info MaxRuntimeSaving, ToCsv (input_df s)})
     \<and> github_api_handler (snd (for_rows_GHES E W t0 s)) = github_api_handler s
     \<and> github_api_handler (snd (for_rows_cloud02 E W t0 s)) = github_api_handler s"
proof (intro allI impI)
  fix E :: env and W :: "nat \<Rightarrow> bool" and t0 :: int and s :: state
  assume a: "\<forall>r \<in> set (input_df s). status r = Some (u ''Done'')"
  have d: "\<forall>p \<in> set (enumerate 0 (input_df s)). status (snd p) = Some (u ''Done'')"
  proof
    fix p assume "p \<in> set (enumerate 0 (input_df s))"
    then have "snd p \<in> snd ` set (enumerate 0 (input_df s))" by (rule imageI)
    then have "snd p \<in> set (map snd (enumerate 0 (input_df s)))" by (simp only: set_map)
    then have "snd p \<in> set (input_df s)" by (simp only: map_snd_enumerate)
    with a show "status (snd p) = Some (u ''Done'')" by blast
  qed
  from loop_GHES_all_done[OF d, of E W t0 s]
  have g: "http_gets (trace (snd (for_rows_GHES E W t0 s))) = http_gets (trace s)"
    "input_df (snd (for_rows_GHES E W t0 s)) = input_df s"
    "github_api_handler (snd (for_rows_GHES E W t0 s)) = github_api_handler s"
    by (simp_all add: for_rows_GHES_def)
  from loop_cloud02_all_done[OF d, of E W t0 s]
  have c: "http_gets (trace (snd (for_rows_cloud02 E W t0 s))) = http_gets (trace s)"
    "input_df (snd (for_rows_cloud02 E W t0 s)) = input_df s"
    "github_api_handler (snd (for_rows_cloud02 E W t0 s)) = github_api_handler s"
    by (simp_all add: for_rows_cloud02_def)
  from loop_GHES_all_done_trace[OF d, of E W t0 s] obtain es where
    es: "trace (snd (for_rows_GHES E W t0 s)) = trace s @ es" "set es \<subseteq> {Now, Info MaxRuntimeExiting}"
    by (auto simp: for_rows_GHES_def)
  from loop_cloud02_all_done_trace[OF d, of E W t0 s] obtain fs where
    fs: "trace (snd (for_rows_cloud02 E W t0 s)) = trace s @ fs"
      "set fs \<subseteq> {Now, Info MaxRuntimeSaving, ToCsv (input_df s)}"
    by (auto simp: for_rows_cloud02_def)
  from es(2) have "\<forall>e \<in> set es. \<not> is_network e" by auto
  with es(1) have ng: "network_calls (trace (snd (for_rows_GHES E W t0 s))) = network_calls (trace s)"
    by (rule network_calls_quiet)
  from fs(2) have "\<forall>e \<in> set fs. \<not> is_network e" by auto
  with fs(1) have nc: "network_calls (trace (snd (for_rows_cloud02 E W t0 s))) = network_calls (trace s)"
    by (rule network_calls_quiet)
  from g c ng nc es fs
  show "http_gets (trace (snd (for_rows_GHES E W t0 s))) = http_gets (trace s)
     \<and> input_df (snd (for_rows_GHES E W t0 s)) = input_df s
     \<and> http_gets (trace (snd (for_rows_cloud02 E W t0 s))) = http_gets (trace s)
     \<and> input_df (snd (for_rows_cloud02 E W t0 s)) = input_df s
     \<and> network_calls (trace (snd (for_rows_GHES E W t0 s))) = network_calls (trace s)
     \<and> network_calls (trace (snd (for_rows_cloud02 E W t0 s))) = network_calls (trace s)
     \<and> (\<exists>es. trace (snd (for_rows_GHES E W t0 s)) = trace s @ es
            \<and> set es \<subseteq> {Now, Info MaxRuntimeExiting})
     \<and> (\<exists>es. trace (snd (for_rows_cloud02 E W t0 s)) = trace s @ es
            \<and> set es \<subseteq> {Now, Info MaxRuntimeSaving, ToCsv (input_df s)})
     \<and> github_api_handler (snd (for_rows_GHES E W t0 s)) = github_api_handler s
     \<and> github_api_handler (snd (for_rows_cloud02 E W t0 s)) = github_api_handler s"
    by blast
qed

text \<open>
  C9: at a row boundary where the time elapsed since the start exceeds the maximum runtime,
  the loop of GHES.py logs and returns at once, and the loop of cloud02.py logs, saves the
  frame as it is and returns (or, if the save raises, leaves the loop with that exception);
  nothing else happens, whatever rows remain. In particular this holds at the first check
  of a non-empty frame.
\<close>

theorem runtime_budget_stops_loop:
  "\<forall>E W t0 index r rest s. now E (trace s) - t0 > max_runtime \<longrightarrow>
     loop_GHES E W t0 ((index, r) # rest) s
       = (Returned, s\<lparr>trace := trace s @ [Now, Info MaxRuntimeExiting]\<rparr>)
     \<and> loop_cloud02 E W t0 ((index, r) # rest) s
       = ((case to_csv E (trace s @ [Now, Info MaxRuntimeSaving]) (input_df s) of
             None \<Rightarrow> Returned | Some e \<Rightarrow> Raised e),
          s\<lparr>trace := trace s @ [Now, Info MaxRuntimeSaving, ToCsv (input_df s)]\<rparr>)
     \<and> (input_df s \<noteq> [] \<longrightarrow>
          for_rows_GHES E W t0 s = (Returned, s\<lparr>trace := trace s @ [Now, Info MaxRuntimeExiting]\<rparr>)
          \<and> for_rows_cloud02 E W t0 s
              = ((case to_csv E (trace s @ [Now, Info MaxRuntimeSaving]) (input_df s) of
                    None \<Rightarrow> Returned | Some e \<Rightarrow> Raised e),
                 s\<lparr>trace := trace s @ [Now, Info MaxRuntimeSaving, ToCsv (input_df s)]\<rparr>))"
proof (intro allI impI)
  fix E :: env and W :: "nat \<Rightarrow> bool" and t0 :: int and index :: nat and r :: row
    and rest :: "(nat \<times> row) list" and s :: state
  assume t: "now E (trace s) - t0 > max_runtime"
  have g: "loop_GHES E W t0 ((i, x) # xs) s
       = (Returned, s\<lparr>trace := trace s @ [Now, Info MaxRuntimeExiting]\<rparr>)" for i x xs
    using t by (simp add: Let_def emit_def)
  have c: "loop_cloud02 E W t0 ((i, x) # xs) s
       = ((case to_csv E (trace s @ [Now, Info MaxRuntimeSaving]) (input_df s) of
             None \<Rightarrow> Returned | Some e \<Rightarrow> Raised e),
          s\<lparr>trace := trace s @ [Now, Info MaxRuntimeSaving, ToCsv (input_df s)]\<rparr>)" for i x xs
    using t by (simp add: Let_def emit_def save_csv_def split: option.splits)
  have f: "input_df s \<noteq> [] \<longrightarrow>
          for_rows_GHES E W t0 s = (Returned, s\<lparr>trace := trace s @ [Now, Info MaxRuntimeExiting]\<rparr>)
          \<and> for_rows_cloud02 E W t0 s
              = ((case to_csv E (trace s @ [Now, Info MaxRuntimeSaving]) (input_df s) of
                    None \<Rightarrow> Returned | Some e \<Rightarrow> Raised e),
                 s\<lparr>trace := trace s @ [Now, Info MaxRuntimeSaving, ToCsv (input_df s)]\<rparr>)"
  proof
    assume "input_df s \<noteq> []"
    then obtain x xs where "input_df s = x # xs" by (cases "input_df s") auto
    then have "enumerate 0 (input_df s) = (0, x) # enumerate 1 xs" by simp
    with g c show "for_rows_GHES E W t0 s = (Returned, s\<lparr>trace := trace s @ [Now, Info MaxRuntimeExiting]\<rparr>)
          \<and> for_rows_cloud02 E W t0 s
              = ((case to_csv E (trace s @ [Now, Info MaxRuntimeSaving]) (input_df s) of
                    None \<Rightarrow> Returned | Some e \<Rightarrow> Raised e),
                 s\<lparr>trace := trace s @ [Now, Info MaxRuntimeSaving, ToCsv (input_df s)]\<rparr>)"
      by (simp only: for_rows_GHES_def for_rows_cloud02_def)
  qed
  from g c f show "loop_GHES E W t0 ((index, r) # rest) s
       = (Returned, s\<lparr>trace := trace s @ [Now, Info MaxRuntimeExiting]\<rparr>)
     \<and> loop_cloud02 E W t0 ((index, r) # rest) s
       = ((case to_csv E (trace s @ [Now, Info MaxRuntimeSaving]) (input_df s) of
             None \<Rightarrow> Returned | Some e \<Rightarrow> Raised e),
          s\<lparr>trace := trace s @ [Now, Info MaxRuntimeSaving, ToCsv (input_df s)]\<rparr>)
     \<and> (input_df s \<noteq> [] \<longrightarrow>
          for_rows_GHES E W t0 s = (Returned, s\<lparr>trace := trace s @ [Now, Info MaxRuntimeExiting]\<rparr>)
          \<and> for_rows_cloud02 E W t0 s
              = ((case to_csv E (trace s @ [Now, Info MaxRuntimeSaving]) (input_df s) of
                    None \<Rightarrow> Returned | Some e \<Rightarrow> Raised e),
                 s\<lparr>trace := trace s @ [Now, Info MaxRuntimeSaving, ToCsv (input_df s)]\<rparr>))"
    by blast
qed

lemmas sink_defs = sheets_call_def except_HttpError_def ensure_sheet_try_def
  ensure_sheet_and_setup_columns_def write_row_try_def write_to_google_sheet_def

lemmas loop_defs = for_rows_GHES_def for_rows_cloud02_def row_try_GHES_def row_try_cloud02_def
  save_csv_def mark_done_def truthy_def max_runtime_def






text \<open>
  C2, amended: an \<open>HttpError\<close> raised by the requests of the \<^verbatim>\<open>try\<close> block of
  \<^verbatim>\<open>write_to_google_sheet\<close> is logged there and raised again; the loop catches whatever the
  write raises at the row boundary, logs it and goes on with the next row.
\<close>

theorem sink_error_is_caught_per_row:
  "\<forall>E W t0 index r rest s.
     (\<forall>nm data s1 s2 s3.
        sheets_call E LoadCredentials s = (Inr (), s1)
        \<and> ensure_sheet_and_setup_columns E nm s1 = (Inr (), s2)
        \<and> write_row_try E nm data s2 = (Inl HttpError, s3) \<longrightarrow>
        write_to_google_sheet E nm data s = (Inl HttpError, emit (Error (SheetWriteError HttpError)) s3))
     \<and> (\<forall>found s1 e s2.
          \<not> now E (trace s) - t0 > max_runtime \<and> status r \<noteq> Some (u ''Done'')
          \<and> get_user_info_from_github_api E W (profile_url r)
                (emit (Info (Processing (username r) (profile_url r))) (emit Now s)) = (Inr found, s1)
          \<and> truthy found
          \<and> write_to_google_sheet E (u ''Sheet2'') [username r, user_id r, profile_url r, found]
                (emit (Info (AppendedEmail (username r) (the found))) (mark_done index found s1)) = (Inl e, s2) \<longrightarrow>
          loop_GHES E W t0 ((index, r) # rest) s
            = loop_GHES E W t0 rest (emit (Error (RowError (profile_url r) e)) s2))"
proof (intro allI impI conjI)
  fix E :: env and s s1 s2 s3 :: state and nm :: str and data :: "cell list"
  assume "sheets_call E LoadCredentials s = (Inr (), s1)
        \<and> ensure_sheet_and_setup_columns E nm s1 = (Inr (), s2)
        \<and> write_row_try E nm data s2 = (Inl HttpError, s3)"
  then show "write_to_google_sheet E nm data s = (Inl HttpError, emit (Error (SheetWriteError HttpError)) s3)"
    by (simp add: write_to_google_sheet_def except_HttpError_def)
next
  fix E :: env and W :: "nat \<Rightarrow> bool" and t0 :: int and index :: nat and r :: row
    and rest :: "(nat \<times> row) list" and s s1 s2 :: state and e :: exn and found :: cell
  assume "\<not> now E (trace s) - t0 > max_runtime \<and> status r \<noteq> Some (u ''Done'')
          \<and> get_user_info_from_github_api E W (profile_url r)
                (emit (Info (Processing (username r) (profile_url r))) (emit Now s)) = (Inr found, s1)
          \<and> truthy found
          \<and> write_to_google_sheet E (u ''Sheet2'') [username r, user_id r, profile_url r, found]
                (emit (Info (AppendedEmail (username r) (the found))) (mark_done index found s1)) = (Inl e, s2)"
  then show "loop_GHES E W t0 ((index, r) # rest) s
            = loop_GHES E W t0 rest (emit (Error (RowError (profile_url r) e)) s2)"
    by (simp add: Let_def row_try_GHES_def)
qed

text \<open>
  C2, as stated, fails: with a sink that refuses every row, the run does not stop at the first
  failed write. The profile of the second row is requested after the first write has
  failed, and the loop ends by running out of rows.
\<close>

theorem run_continues_after_sink_error:
  "fst (for_rows_GHES failing_sink_env (\<lambda>x. False) 0 (start [u ''k1''] [alice_row, bob_row])) = Exhausted
   \<and> http_gets (trace (snd (for_rows_GHES failing_sink_env (\<lambda>x. False) 0 (start [u ''k1''] [alice_row, bob_row]))))
     = [(Resilient, u ''https://api.github.com/rate_limit''),
        (Resilient, u ''https://api.github.com/users/alice''),
        (Resilient, u ''https://api.github.com/rate_limit''),
        (Resilient, u ''https://api.github.com/users/bob'')]
   \<and> errors (trace (snd (for_rows_GHES failing_sink_env (\<lambda>x. False) 0 (start [u ''k1''] [alice_row, bob_row]))))
     = [SheetWriteError HttpError, RowError (Some (u ''https://github.com/alice'')) HttpError,
        SheetWriteError HttpError, RowError (Some (u ''https://github.com/bob'')) HttpError]"
  by (simp add: failing_sink_env_def profile_with_email_def alice_row_def bob_row_def run_defs sink_defs loop_defs u_Cons u_Nil)

lemma errors_append: "errors (xs @ ys) = errors xs @ errors ys"
  by (induction xs rule: errors.induct) auto


theorem sink_error_is_caught_per_row_witness:
  "fst (loop_GHES failing_sink_env (\<lambda>x. False) 0 [(0, alice_row)] (start [u ''k1''] [alice_row])) = Exhausted
   \<and> errors (trace (snd (loop_GHES failing_sink_env (\<lambda>x. False) 0 [(0, alice_row)] (start [u ''k1''] [alice_row]))))
       = [SheetWriteError HttpError, RowError (Some (u ''https://github.com/alice'')) HttpError]"
proof -
  let ?W = "\<lambda>x::nat. False"
  let ?E = failing_sink_env
  let ?s = "start [u ''k1''] [alice_row]"
  let ?sP = "emit (Info (Processing (username alice_row) (profile_url alice_row))) (emit Now ?s)"
  let ?found = "Some (u ''alice@example.com'')"
  let ?s1 = "snd (get_user_info_from_github_api ?E ?W (profile_url alice_row) ?sP)"
  let ?sW = "emit (Info (AppendedEmail (username alice_row) (the ?found))) (mark_done 0 ?found ?s1)"
  let ?data = "[username alice_row, user_id alice_row, profile_url alice_row, ?found]"
  let ?s2 = "snd (write_to_google_sheet ?E (u ''Sheet2'') ?data ?sW)"
  note T = sink_error_is_caught_per_row[THEN spec[where x = ?E], THEN spec[where x = ?W],
      THEN spec[where x = "0::int"], THEN spec[where x = "0::nat"], THEN spec[where x = alice_row],
      THEN spec[where x = "[]"], THEN spec[where x = ?s], THEN conjunct2,
      THEN spec[where x = ?found], THEN spec[where x = ?s1], THEN spec[where x = HttpError],
      THEN spec[where x = ?s2]]
  have h1: "\<not> now ?E (trace ?s) - 0 > max_runtime \<and> status alice_row \<noteq> Some (u ''Done'')"
    by (simp add: failing_sink_env_def fixture_def start_def max_runtime_def alice_row_def u_def)
  have "fst (get_user_info_from_github_api ?E ?W (profile_url alice_row) ?sP) = Inr ?found"
    by (simp add: failing_sink_env_def profile_with_email_def alice_row_def run_defs u_Cons u_Nil)
  then have g: "get_user_info_from_github_api ?E ?W (profile_url alice_row) ?sP = (Inr ?found, ?s1)"
    by (metis prod.collapse)
  have t: "truthy ?found" by (simp add: truthy_def u_def)
  have "fst (write_to_google_sheet ?E (u ''Sheet2'') ?data ?sW) = Inl HttpError"
    by (simp add: failing_sink_env_def fixture_def sink_defs emit_def split: prod.splits)
  then have w: "write_to_google_sheet ?E (u ''Sheet2'') ?data ?sW = (Inl HttpError, ?s2)"
    by (metis prod.collapse)
  from T h1 g t w
  have l: "loop_GHES ?E ?W 0 [(0, alice_row)] ?s
      = loop_GHES ?E ?W 0 [] (emit (Error (RowError (profile_url alice_row) HttpError)) ?s2)"
    by blast
  have e1: "errors (trace ?s1) = []"
    by (simp add: failing_sink_env_def profile_with_email_def alice_row_def run_defs u_Cons u_Nil)
  have e2: "errors (trace ?s2) = errors (trace ?sW) @ [SheetWriteError HttpError]"
    by (simp add: failing_sink_env_def fixture_def sink_defs emit_def errors_append split: prod.splits)
  from e1 e2 have e: "errors (trace ?s2) = [SheetWriteError HttpError]"
    by (simp add: emit_simps mark_done_def errors_append)
  from l have "fst (loop_GHES ?E ?W 0 [(0, alice_row)] ?s) = Exhausted" by simp
  moreover from l e have "errors (trace (snd (loop_GHES ?E ?W 0 [(0, alice_row)] ?s)))
       = [SheetWriteError HttpError, RowError (Some (u ''https://github.com/alice'')) HttpError]"
    by (simp add: emit_simps errors_append alice_row_def)
  ultimately show ?thesis by blast
qed

theorem all_done_is_noop_witness:
  "http_gets (trace (snd (for_rows_GHES healthy_env (\<lambda>x. False) 0 (start [u ''k1''] [done_row, done_row])))) = []
   \<and> input_df (snd (for_rows_GHES healthy_env (\<lambda>x. False) 0 (start [u ''k1''] [done_row, done_row])))
       = [done_row, done_row]
   \<and> http_gets (trace (snd (for_rows_cloud02 healthy_env (\<lambda>x. False) 0 (start [u ''k1''] [done_row, done_row])))) = []
   \<and> input_df (snd (for_rows_cloud02 healthy_env (\<lambda>x. False) 0 (start [u ''k1''] [done_row, done_row])))
       = [done_row, done_row]
   \<and> network_calls (trace (snd (for_rows_GHES healthy_env (\<lambda>x. False) 0 (start [u ''k1''] [done_row, done_row])))) = []
   \<and> network_calls (trace (snd (for_rows_cloud02 healthy_env (\<lambda>x. False) 0 (start [u ''k1''] [done_row, done_row])))) = []"
proof -
  let ?s = "start [u ''k1''] [done_row, done_row]"
  have h: "\<forall>r \<in> set (input_df ?s). status r = Some (u ''Done'')"
    by (simp add: start_def done_row_def)
  from all_done_is_noop[THEN spec[where x = healthy_env], THEN spec[where x = "\<lambda>x. False"],
      THEN spec[where x = "0::int"], THEN spec[where x = ?s]] h
  have "http_gets (trace (snd (for_rows_GHES healthy_env (\<lambda>x. False) 0 ?s))) = http_gets (trace ?s)
     \<and> input_df (snd (for_rows_GHES healthy_env (\<lambda>x. False) 0 ?s)) = input_df ?s
     \<and> http_gets (trace (snd (for_rows_cloud02 healthy_env (\<lambda>x. False) 0 ?s))) = http_gets (trace ?s)
     \<and> input_df (snd (for_rows_cloud02 healthy_env (\<lambda>x. False) 0 ?s)) = input_df ?s
     \<and> network_calls (trace (snd (for_rows_GHES healthy_env (\<lambda>x. False) 0 ?s))) = network_calls (trace ?s)
     \<and> network_calls (trace (snd (for_rows_cloud02 healthy_env (\<lambda>x. False) 0 ?s))) = network_calls (trace ?s)"
    by blast
  then show ?thesis by (simp add: start_def network_calls_def)
qed

theorem runtime_budget_stops_loop_witness:
  "for_rows_GHES late_env (\<lambda>x. False) 0 (start [u ''k1''] [alice_row])
     = (Returned, (start [u ''k1''] [alice_row])\<lparr>trace := [Now, Info MaxRuntimeExiting]\<rparr>)
   \<and> for_rows_cloud02 late_env (\<lambda>x. False) 0 (start [u ''k1''] [alice_row])
     = (Returned, (start [u ''k1''] [alice_row])\<lparr>trace := [Now, Info MaxRuntimeSaving, ToCsv [alice_row]]\<rparr>)"
proof -
  let ?s = "start [u ''k1''] [alice_row]"
  have h: "now late_env (trace ?s) - 0 > max_runtime"
    by (simp add: late_env_def fixture_def start_def)
  have n: "input_df ?s \<noteq> []" by (simp add: start_def)
  have c: "to_csv late_env tr df = None" for tr df by (simp add: late_env_def fixture_def)
  from runtime_budget_stops_loop[THEN spec[where x = late_env], THEN spec[where x = "\<lambda>x. False"],
      THEN spec[where x = "0::int"], THEN spec[where x = "0::nat"], THEN spec[where x = alice_row],
      THEN spec[where x = "[]"], THEN spec[where x = ?s]] h n
  have "for_rows_GHES late_env (\<lambda>x. False) 0 ?s = (Returned, ?s\<lparr>trace := trace ?s @ [Now, Info MaxRuntimeExiting]\<rparr>)
        \<and> for_rows_cloud02 late_env (\<lambda>x. False) 0 ?s
            = ((case to_csv late_env (trace ?s @ [Now, Info MaxRuntimeSaving]) (input_df ?s) of
                  None \<Rightarrow> Returned | Some e \<Rightarrow> Raised e),
               ?s\<lparr>trace := trace ?s @ [Now, Info MaxRuntimeSaving, ToCsv (input_df ?s)]\<rparr>)"
    by blast
  then show ?thesis by (simp add: c start_def)
qed


end
